theory Spec2Isabelle
  imports Main "HOL-Library.Word" "HOL-Library.Signed_Division"
begin

unbundle bit_operations_syntax

section \<open>Bytes, errors and panics\<close>

text \<open>
  The contents of a Go \<^verbatim>\<open>[]byte\<close> are a list of 8-bit words. The
  \<^verbatim>\<open>error\<close> values the package creates with \<^verbatim>\<open>errors.New\<close>,
  \<^verbatim>\<open>io.EOF\<close>, and the run-time panics its statements can raise are the
  constructors of one datatype.
\<close>

type_synonym byte = "8 word"
type_synonym bytes = "byte list"

datatype error =
    ErrInvalidPadding      \<comment> \<open>\<^verbatim>\<open>errors.New("invalid padding")\<close>\<close>
  | ErrWriterClosed        \<comment> \<open>\<^verbatim>\<open>errors.New("writer has been closed")\<close>\<close>
  | ErrNotEnoughBytes      \<comment> \<open>\<^verbatim>\<open>errors.New("not enough bytes in read buffer to strip PKCS7 padding")\<close>\<close>
  | ErrKeyLength           \<comment> \<open>\<^verbatim>\<open>errors.New("aes key must be 32 bytes long")\<close>\<close>
  | ErrIVLength            \<comment> \<open>\<^verbatim>\<open>errors.New("IV must be 16 bytes long")\<close>\<close>
  | EOF                    \<comment> \<open>\<^verbatim>\<open>io.EOF\<close>\<close>
  | PanicDivideByZero      \<comment> \<open>run-time panic: integer divide by zero\<close>
  | PanicSliceBounds       \<comment> \<open>run-time panic: slice bounds out of range\<close>
  | PanicNotFullBlocks     \<comment> \<open>\<^verbatim>\<open>panic("crypto/cipher: input not full blocks")\<close>\<close>

section \<open>The padding codec\<close>

text \<open>
  \<^verbatim>\<open>Pkcs7Pad\<close>: the loop \<^verbatim>\<open>for i := 0; i < pl; i++\<close> appends
  \<^verbatim>\<open>byte(pl)\<close>, the low eight bits of \<^verbatim>\<open>pl\<close>. Go's \<^verbatim>\<open>%\<close>
  truncates towards zero (\<open>smod\<close>) and panics on a zero divisor.
\<close>

function pad_loop :: "int \<Rightarrow> int \<Rightarrow> bytes \<Rightarrow> bytes" where
  "pad_loop i pl input =
     (if i < pl then pad_loop (i + 1) pl (input @ [word_of_int pl]) else input)"
  by pat_completeness auto
termination
  by (relation "measure (\<lambda>(i, pl, input). nat (pl - i))") auto

definition Pkcs7Pad :: "bytes \<Rightarrow> int \<Rightarrow> error + bytes" where
  "Pkcs7Pad input blockSize =
     (if blockSize = 0 then Inl PanicDivideByZero
      else
        let r = int (length input) smod blockSize;
            pl = blockSize - r
        in Inr (pad_loop 0 pl input))"

text \<open>
  \<^verbatim>\<open>checkPaddingIsValid\<close>: the \<^verbatim>\<open>range\<close> loop compares every byte of the
  tail \<^verbatim>\<open>p\<close> with \<^verbatim>\<open>len(p)\<close>, both as unsigned integers. A negative
  \<^verbatim>\<open>paddingLength\<close> would make the slice expression panic.
\<close>

fun padding_loop :: "bytes \<Rightarrow> nat \<Rightarrow> error option" where
  "padding_loop [] n = None"
| "padding_loop (pc # rest) n =
     (if unat pc \<noteq> n then Some ErrInvalidPadding else padding_loop rest n)"

definition checkPaddingIsValid :: "bytes \<Rightarrow> int \<Rightarrow> error option" where
  "checkPaddingIsValid input paddingLength =
     (if int (length input) < paddingLength then Some ErrInvalidPadding
      else if paddingLength < 0 then Some PanicSliceBounds
      else
        let p = drop (length input - nat paddingLength) input
        in padding_loop p (length p))"

definition Pkcs7Unpad :: "bytes \<Rightarrow> error + bytes" where
  "Pkcs7Unpad input =
     (if input = [] then Inr []
      else
        let pc = last input;
            pl = uint pc
        in case checkPaddingIsValid input pl of
             Some err \<Rightarrow> Inl err
           | None \<Rightarrow> Inr (take (length input - nat pl) input))"

section \<open>The block cipher in CBC mode\<close>

text \<open>
  The cipher is Go's standard library, outside the repository, so it is a parameter of
  the model: a \<open>Block\<close> holds the two single-block transforms of
  \<^verbatim>\<open>cipher.Block\<close> for the key the stream was built with. The CBC chaining
  around it follows \<^verbatim>\<open>crypto/cipher\<close>: \<^verbatim>\<open>CryptBlocks\<close> panics
  unless the input is a whole number of blocks, encrypts \<open>E (p XOR iv)\<close> or decrypts
  \<open>D c XOR iv\<close> block by block, and keeps the last ciphertext block as the
  chaining value of the next call. \<^verbatim>\<open>e.cbc.BlockSize()\<close> is
  \<^verbatim>\<open>aes.BlockSize\<close>, 16.
\<close>

abbreviation BlockSize :: nat where
  "BlockSize \<equiv> 16"

record Block =
  Encrypt :: "bytes \<Rightarrow> bytes"
  Decrypt :: "bytes \<Rightarrow> bytes"

record BlockMode =
  block :: Block
  chain :: bytes

definition xor_bytes :: "bytes \<Rightarrow> bytes \<Rightarrow> bytes" where
  "xor_bytes x y = map2 (XOR) x y"

fun encrypt_loop :: "Block \<Rightarrow> bytes \<Rightarrow> bytes \<Rightarrow> bytes \<times> bytes" where
  "encrypt_loop blk iv src =
     (if src = [] then ([], iv)
      else
        let c = Encrypt blk (xor_bytes (take BlockSize src) iv)
        in case encrypt_loop blk c (drop BlockSize src) of
             (rest, iv') \<Rightarrow> (c @ rest, iv'))"

fun decrypt_loop :: "Block \<Rightarrow> bytes \<Rightarrow> bytes \<Rightarrow> bytes \<times> bytes" where
  "decrypt_loop blk iv src =
     (if src = [] then ([], iv)
      else
        let c = take BlockSize src;
            p = xor_bytes (Decrypt blk c) iv
        in case decrypt_loop blk c (drop BlockSize src) of
             (rest, iv') \<Rightarrow> (p @ rest, iv'))"

definition CBCEncrypter_CryptBlocks :: "BlockMode \<Rightarrow> bytes \<Rightarrow> error + bytes \<times> BlockMode" where
  "CBCEncrypter_CryptBlocks x src =
     (if length src mod BlockSize \<noteq> 0 then Inl PanicNotFullBlocks
      else case encrypt_loop (block x) (chain x) src of
             (dst, iv') \<Rightarrow> Inr (dst, x\<lparr>chain := iv'\<rparr>))"

definition CBCDecrypter_CryptBlocks :: "BlockMode \<Rightarrow> bytes \<Rightarrow> error + bytes \<times> BlockMode" where
  "CBCDecrypter_CryptBlocks x src =
     (if length src mod BlockSize \<noteq> 0 then Inl PanicNotFullBlocks
      else case decrypt_loop (block x) (chain x) src of
             (dst, iv') \<Rightarrow> Inr (dst, x\<lparr>chain := iv'\<rparr>))"

text \<open>\<^verbatim>\<open>copy(dst, src)\<close> with \<^verbatim>\<open>len(dst) = n\<close>: the bytes that arrive in \<^verbatim>\<open>dst\<close>.\<close>

definition copy :: "nat \<Rightarrow> bytes \<Rightarrow> bytes" where
  "copy n src = take (min n (length src)) src"

section \<open>Slices and the caller's memory\<close>

text \<open>
  \<^verbatim>\<open>Write\<close> keeps a sub-slice of the slice it is given and later appends to it, so
  the stream and its caller can share a backing array: what the caller stores there
  afterwards is what the stream reads, and what \<^verbatim>\<open>append\<close> writes within the
  capacity lands in the caller's array. The memory the caller can reach is therefore part
  of the model: a map from addresses to bytes. A \<open>slice\<close> is Go's slice header, the
  address of its first byte, its length and its capacity. A slice whose backing array
  only the stream can reach (the result of \<^verbatim>\<open>make\<close>, or of an \<^verbatim>\<open>append\<close>
  that had to allocate) is \<open>Own\<close> with its contents; a slice into the caller's memory
  is a \<open>View\<close>.
\<close>

type_synonym memory = "nat \<Rightarrow> byte"

record slice =
  Data :: nat
  Len :: nat
  Cap :: nat

datatype buffer = Own bytes | View slice

definition slice_bytes :: "memory \<Rightarrow> slice \<Rightarrow> bytes" where
  "slice_bytes m s = map m [Data s ..< Data s + Len s]"

fun buf_len :: "buffer \<Rightarrow> nat" where
  "buf_len (Own bs) = length bs"
| "buf_len (View s) = Len s"

fun buf_bytes :: "memory \<Rightarrow> buffer \<Rightarrow> bytes" where
  "buf_bytes m (Own bs) = bs"
| "buf_bytes m (View s) = slice_bytes m s"

text \<open>\<open>store m a xs\<close>: the memory after the bytes \<open>xs\<close> have been written from address \<open>a\<close> on.\<close>

definition store :: "memory \<Rightarrow> nat \<Rightarrow> bytes \<Rightarrow> memory" where
  "store m a xs = (\<lambda>i. if a \<le> i \<and> i < a + length xs then xs ! (i - a) else m i)"

text \<open>The slice expressions \<^verbatim>\<open>b[k:]\<close> and \<^verbatim>\<open>b[:k]\<close>, for \<open>k\<close> up to the length.\<close>

fun buf_from :: "nat \<Rightarrow> buffer \<Rightarrow> buffer" where
  "buf_from k (Own bs) = Own (drop k bs)"
| "buf_from k (View s) = View \<lparr> Data = Data s + k, Len = Len s - k, Cap = Cap s - k \<rparr>"

fun buf_upto :: "nat \<Rightarrow> buffer \<Rightarrow> buffer" where
  "buf_upto k (Own bs) = Own (take k bs)"
| "buf_upto k (View s) = View (s\<lparr> Len := k \<rparr>)"

text \<open>
  \<^verbatim>\<open>append(b, xs...)\<close>: within the capacity the bytes are written behind the slice,
  in place; otherwise the result is a new array with the old contents and \<open>xs\<close>.
\<close>

fun append_buf :: "memory \<Rightarrow> buffer \<Rightarrow> bytes \<Rightarrow> buffer \<times> memory" where
  "append_buf m (Own bs) xs = (Own (bs @ xs), m)"
| "append_buf m (View s) xs =
     (if Len s + length xs \<le> Cap s
      then (View (s\<lparr> Len := Len s + length xs \<rparr>), store m (Data s + Len s) xs)
      else (Own (slice_bytes m s @ xs), m))"

text \<open>
  \<^verbatim>\<open>Pkcs7Pad\<close> applied to a slice that may be a view: the same loop, with each
  \<^verbatim>\<open>append\<close> in place while the capacity lasts. On contents alone it is
  \<open>Pkcs7Pad\<close> (\<open>Pkcs7Pad_buf_bytes\<close> below).
\<close>

function pad_loop_buf :: "int \<Rightarrow> int \<Rightarrow> buffer \<times> memory \<Rightarrow> buffer \<times> memory" where
  "pad_loop_buf i pl (input, m) =
     (if i < pl then pad_loop_buf (i + 1) pl (append_buf m input [word_of_int pl])
      else (input, m))"
  by pat_completeness auto
termination
  by (relation "measure (\<lambda>(i, pl, input). nat (pl - i))") auto

definition Pkcs7Pad_buf :: "memory \<Rightarrow> buffer \<Rightarrow> int \<Rightarrow> error + buffer \<times> memory" where
  "Pkcs7Pad_buf m input blockSize =
     (if blockSize = 0 then Inl PanicDivideByZero
      else
        let r = int (buf_len input) smod blockSize;
            pl = blockSize - r
        in Inr (pad_loop_buf 0 pl (input, m)))"

section \<open>The encryptor\<close>

text \<open>
  The input overflow is the one field that can be a view of the caller's memory; the
  output queue only ever holds arrays the stream allocated.
\<close>

record AESCBCEncryptor =
  IV :: bytes
  AESKey :: bytes
  CopyBufferSize :: int
  inputoverflow :: buffer
  outputoverflow :: bytes
  cipher :: Block
  cbc :: BlockMode
  isClosed :: bool

text \<open>
  \<^verbatim>\<open>NewAESCBCEncryptor\<close>: \<open>key\<close> and \<open>iv\<close> are the 32 and 16 bytes that
  \<^verbatim>\<open>rand.Read\<close> delivered and \<open>NewCipher\<close> is \<^verbatim>\<open>aes.NewCipher\<close>;
  the returns on their errors hand out no encryptor and are left out.
\<close>

definition NewAESCBCEncryptor :: "(bytes \<Rightarrow> Block) \<Rightarrow> bytes \<Rightarrow> bytes \<Rightarrow> AESCBCEncryptor" where
  "NewAESCBCEncryptor NewCipher key iv =
     \<lparr> IV = iv, AESKey = key, CopyBufferSize = 5 * 1024 * 1024,
       inputoverflow = Own [], outputoverflow = [],
       cipher = NewCipher key,
       cbc = \<lparr> block = NewCipher key, chain = iv \<rparr>,
       isClosed = False \<rparr>"

text \<open>
  The tail of \<^verbatim>\<open>Write\<close>: encrypt the bytes \<open>p\<close> and queue the ciphertext. A
  method's result is paired with the state of the receiver, and with the caller's memory,
  when it returns or panics.
\<close>

definition encrypt_and_queue ::
  "bytes \<Rightarrow> AESCBCEncryptor \<Rightarrow> (error + nat) \<times> AESCBCEncryptor" where
  "encrypt_and_queue p e =
     (case CBCEncrypter_CryptBlocks (AESCBCEncryptor.cbc e) p of
        Inl err \<Rightarrow> (Inl err, e)
      | Inr (cipherText, cbc') \<Rightarrow>
          (Inr (length p),
           e\<lparr> AESCBCEncryptor.cbc := cbc',
              AESCBCEncryptor.outputoverflow := AESCBCEncryptor.outputoverflow e @ cipherText \<rparr>))"

text \<open>
  \<^verbatim>\<open>Write\<close>. With an empty input overflow \<open>p\<close> is the caller's slice itself. In
  the unaligned branch the input overflow becomes a copy of the extra bytes; in the
  aligned branch it becomes the sub-slice \<^verbatim>\<open>p[len(p)-16:]\<close>, a view of the caller's
  memory whenever \<open>p\<close> is one.
\<close>

definition Encryptor_Write ::
  "slice \<Rightarrow> memory \<Rightarrow> AESCBCEncryptor \<Rightarrow> (error + nat) \<times> AESCBCEncryptor \<times> memory" where
  "Encryptor_Write p0 m e =
     (if AESCBCEncryptor.isClosed e then (Inl ErrWriterClosed, e, m)
      else
        case (if buf_len (AESCBCEncryptor.inputoverflow e) > 0
              then append_buf m (AESCBCEncryptor.inputoverflow e) (slice_bytes m p0)
              else (View p0, m)) of
          (p, m1) \<Rightarrow>
            if buf_len p mod BlockSize \<noteq> 0 then
              let numFullBlocks = buf_len p div BlockSize;
                  sizeFullBlocks = numFullBlocks * BlockSize;
                  extraBytes = buf_len p - sizeFullBlocks
              in case encrypt_and_queue (buf_bytes m1 (buf_upto sizeFullBlocks p))
                        (e\<lparr> AESCBCEncryptor.inputoverflow :=
                              Own (buf_bytes m1 (buf_from (buf_len p - extraBytes) p)) \<rparr>) of
                   (r, e') \<Rightarrow> (r, e', m1)
            else if buf_len p < BlockSize then (Inl PanicSliceBounds, e, m1)
            else
              case encrypt_and_queue (buf_bytes m1 (buf_upto (buf_len p - BlockSize) p))
                     (e\<lparr> AESCBCEncryptor.inputoverflow := buf_from (buf_len p - BlockSize) p \<rparr>) of
                (r, e') \<Rightarrow> (r, e', m1))"

text \<open>
  \<^verbatim>\<open>Read\<close> copies into the caller's slice \<open>p\<close> and returns the number of bytes
  copied; \<^verbatim>\<open>(0, io.EOF)\<close> is \<open>Inl EOF\<close>.
\<close>

definition Encryptor_Read ::
  "slice \<Rightarrow> memory \<Rightarrow> AESCBCEncryptor \<Rightarrow> (error + nat) \<times> AESCBCEncryptor \<times> memory" where
  "Encryptor_Read p m e =
     (if AESCBCEncryptor.isClosed e \<and> length (AESCBCEncryptor.outputoverflow e) = 0
      then (Inl EOF, e, m)
      else if Len p \<ge> length (AESCBCEncryptor.outputoverflow e) then
        (Inr (length (copy (Len p) (AESCBCEncryptor.outputoverflow e))),
         e\<lparr> AESCBCEncryptor.outputoverflow := take 0 (AESCBCEncryptor.outputoverflow e) \<rparr>,
         store m (Data p) (copy (Len p) (AESCBCEncryptor.outputoverflow e)))
      else
        let n = length (copy (Len p) (AESCBCEncryptor.outputoverflow e))
        in (Inr n,
            e\<lparr> AESCBCEncryptor.outputoverflow := drop n (AESCBCEncryptor.outputoverflow e) \<rparr>,
            store m (Data p) (copy (Len p) (AESCBCEncryptor.outputoverflow e))))"

text \<open>\<^verbatim>\<open>Close\<close> returns nothing: \<open>None\<close>, or the panic of a callee.\<close>

definition Encryptor_Close ::
  "memory \<Rightarrow> AESCBCEncryptor \<Rightarrow> error option \<times> AESCBCEncryptor \<times> memory" where
  "Encryptor_Close m e =
     (case Pkcs7Pad_buf m (AESCBCEncryptor.inputoverflow e) (int BlockSize) of
        Inl err \<Rightarrow> (Some err, e, m)
      | Inr (p, m1) \<Rightarrow>
          (case CBCEncrypter_CryptBlocks (AESCBCEncryptor.cbc e) (buf_bytes m1 p) of
             Inl err \<Rightarrow> (Some err, e, m1)
           | Inr (lastBlock, cbc') \<Rightarrow>
               (None,
                e\<lparr> AESCBCEncryptor.cbc := cbc',
                   AESCBCEncryptor.outputoverflow := AESCBCEncryptor.outputoverflow e @ lastBlock,
                   AESCBCEncryptor.isClosed := True \<rparr>,
                m1)))"

section \<open>The decryptor\<close>

record AESCBCDecryptor =
  iv :: bytes
  aesKey :: bytes
  CopyBufferSize :: int
  inputoverflow :: buffer
  outputoverflow :: bytes
  cipher :: Block
  cbc :: BlockMode
  isClosed :: bool

definition NewAESCBCDecryptor ::
  "(bytes \<Rightarrow> Block) \<Rightarrow> bytes \<Rightarrow> bytes \<Rightarrow> error + AESCBCDecryptor" where
  "NewAESCBCDecryptor NewCipher key iv0 =
     (if length key \<noteq> 32 then Inl ErrKeyLength
      else if length iv0 \<noteq> 16 then Inl ErrIVLength
      else Inr
        \<lparr> iv = iv0, aesKey = key, CopyBufferSize = 5 * 1024 * 1024,
          inputoverflow = Own [], outputoverflow = [],
          cipher = NewCipher key,
          cbc = \<lparr> block = NewCipher key, chain = iv0 \<rparr>,
          isClosed = False \<rparr>)"

definition decrypt_and_queue ::
  "bytes \<Rightarrow> AESCBCDecryptor \<Rightarrow> (error + nat) \<times> AESCBCDecryptor" where
  "decrypt_and_queue p e =
     (case CBCDecrypter_CryptBlocks (AESCBCDecryptor.cbc e) p of
        Inl err \<Rightarrow> (Inl err, e)
      | Inr (plaintext, cbc') \<Rightarrow>
          (Inr (length p),
           e\<lparr> AESCBCDecryptor.cbc := cbc',
              AESCBCDecryptor.outputoverflow := AESCBCDecryptor.outputoverflow e @ plaintext \<rparr>))"

text \<open>
  \<^verbatim>\<open>Write\<close>. In the unaligned branch the slice \<^verbatim>\<open>make\<close> returns is replaced at
  once by the sub-slice \<^verbatim>\<open>p[len(p)-extraBytes:]\<close>, a view of the caller's memory
  whenever \<open>p\<close> is one; in the aligned branch a non-empty input overflow is replaced by
  an empty slice of the stream's own.
\<close>

definition Decryptor_Write ::
  "slice \<Rightarrow> memory \<Rightarrow> AESCBCDecryptor \<Rightarrow> (error + nat) \<times> AESCBCDecryptor \<times> memory" where
  "Decryptor_Write p0 m e =
     (if AESCBCDecryptor.isClosed e then (Inl ErrWriterClosed, e, m)
      else
        case (if buf_len (AESCBCDecryptor.inputoverflow e) > 0
              then append_buf m (AESCBCDecryptor.inputoverflow e) (slice_bytes m p0)
              else (View p0, m)) of
          (p, m1) \<Rightarrow>
            if buf_len p mod BlockSize \<noteq> 0 then
              let numFullBlocks = buf_len p div BlockSize;
                  sizeFullBlocks = numFullBlocks * BlockSize;
                  extraBytes = buf_len p - sizeFullBlocks
              in case decrypt_and_queue (buf_bytes m1 (buf_upto sizeFullBlocks p))
                        (e\<lparr> AESCBCDecryptor.inputoverflow := buf_from (buf_len p - extraBytes) p \<rparr>) of
                   (r, e') \<Rightarrow> (r, e', m1)
            else if buf_len (AESCBCDecryptor.inputoverflow e) > 0 then
              case decrypt_and_queue (buf_bytes m1 p)
                     (e\<lparr> AESCBCDecryptor.inputoverflow := Own [] \<rparr>) of
                (r, e') \<Rightarrow> (r, e', m1)
            else
              case decrypt_and_queue (buf_bytes m1 p) e of
                (r, e') \<Rightarrow> (r, e', m1))"

text \<open>
  \<^verbatim>\<open>Read\<close>: the comparison is on Go's signed \<^verbatim>\<open>int\<close>, and the slice
  expression \<^verbatim>\<open>e.outputoverflow[:len(e.outputoverflow)-bytesToRetain]\<close> panics
  when its bound is negative.
\<close>

definition Decryptor_Read ::
  "slice \<Rightarrow> memory \<Rightarrow> AESCBCDecryptor \<Rightarrow> (error + nat) \<times> AESCBCDecryptor \<times> memory" where
  "Decryptor_Read p m e =
     (if length (AESCBCDecryptor.outputoverflow e) = 0 \<and> AESCBCDecryptor.isClosed e
      then (Inl EOF, e, m)
      else
        let bytesToRetain = (if AESCBCDecryptor.isClosed e then 0 else 16 :: nat);
            out = AESCBCDecryptor.outputoverflow e
        in
          if int (Len p) \<ge> int (length out) - int bytesToRetain then
            if length out < bytesToRetain then (Inl PanicSliceBounds, e, m)
            else
              (Inr (length (copy (Len p) (take (length out - bytesToRetain) out))),
               e\<lparr> AESCBCDecryptor.outputoverflow := drop (length out - bytesToRetain) out \<rparr>,
               store m (Data p) (copy (Len p) (take (length out - bytesToRetain) out)))
          else
            let n = length (copy (Len p) out)
            in (Inr n,
                e\<lparr> AESCBCDecryptor.outputoverflow := drop n out \<rparr>,
                store m (Data p) (copy (Len p) out)))"

text \<open>\<^verbatim>\<open>Close\<close> works on the output queue alone and leaves the caller's memory out.\<close>

definition Decryptor_Close :: "AESCBCDecryptor \<Rightarrow> error option \<times> AESCBCDecryptor" where
  "Decryptor_Close e =
     (if length (AESCBCDecryptor.outputoverflow e) < 16 then (Some ErrNotEnoughBytes, e)
      else
        case Pkcs7Unpad (AESCBCDecryptor.outputoverflow e) of
          Inl err \<Rightarrow> (Some err, e)
        | Inr p \<Rightarrow>
            (None,
             e\<lparr> AESCBCDecryptor.outputoverflow := p,
                AESCBCDecryptor.isClosed := True \<rparr>))"

section \<open>Callers\<close>

text \<open>
  A caller about which nothing is assumed: \<open>Encryptor_writes\<close> and
  \<open>Decryptor_writes\<close> issue one \<^verbatim>\<open>Write\<close> per entry of a list, each with the
  slice it passes and with the memory as the caller has left it by then, and stop at the
  first error or panic.
\<close>

fun Encryptor_writes ::
  "(slice \<times> memory) list \<Rightarrow> AESCBCEncryptor \<Rightarrow> error + AESCBCEncryptor" where
  "Encryptor_writes [] e = Inr e"
| "Encryptor_writes ((p, m) # calls) e =
     (case Encryptor_Write p m e of
        (Inl err, e', m') \<Rightarrow> Inl err
      | (Inr n, e', m') \<Rightarrow> Encryptor_writes calls e')"

fun Decryptor_writes ::
  "(slice \<times> memory) list \<Rightarrow> AESCBCDecryptor \<Rightarrow> error + AESCBCDecryptor" where
  "Decryptor_writes [] e = Inr e"
| "Decryptor_writes ((p, m) # calls) e =
     (case Decryptor_Write p m e of
        (Inl err, e', m') \<Rightarrow> Inl err
      | (Inr n, e', m') \<Rightarrow> Decryptor_writes calls e')"

text \<open>
  The caller of the round trip and of the streaming equivalence holds the payload in one
  array, from address \<open>0\<close> on, and leaves it alone. It writes the payload chunk by
  chunk, each chunk the sub-slice of the array that follows the one before, with the rest
  of the array as its capacity; \<open>y\<close> is the number of bytes written so far and
  \<open>tot\<close> the length of the array.
\<close>

fun Encryptor_write_chunks ::
  "nat \<Rightarrow> nat \<Rightarrow> bytes list \<Rightarrow> memory \<Rightarrow> AESCBCEncryptor \<Rightarrow> error + AESCBCEncryptor \<times> memory" where
  "Encryptor_write_chunks y tot [] m e = Inr (e, m)"
| "Encryptor_write_chunks y tot (c # cs) m e =
     (case Encryptor_Write \<lparr> Data = y, Len = length c, Cap = tot - y \<rparr> m e of
        (Inl err, e', m') \<Rightarrow> Inl err
      | (Inr n, e', m') \<Rightarrow> Encryptor_write_chunks (y + length c) tot cs m' e')"

fun Decryptor_write_chunks ::
  "nat \<Rightarrow> nat \<Rightarrow> bytes list \<Rightarrow> memory \<Rightarrow> AESCBCDecryptor \<Rightarrow> error + AESCBCDecryptor \<times> memory" where
  "Decryptor_write_chunks y tot [] m e = Inr (e, m)"
| "Decryptor_write_chunks y tot (c # cs) m e =
     (case Decryptor_Write \<lparr> Data = y, Len = length c, Cap = tot - y \<rparr> m e of
        (Inl err, e', m') \<Rightarrow> Inl err
      | (Inr n, e', m') \<Rightarrow> Decryptor_write_chunks (y + length c) tot cs m' e')"

text \<open>
  The drain loops are the one \<^verbatim>\<open>Copy\<close> runs after \<^verbatim>\<open>Close\<close>:
  \<^verbatim>\<open>Read\<close> into the buffer \<open>p\<close> until a call delivers no byte, collecting
  \<^verbatim>\<open>p[:n]\<close> after each call.
\<close>

function Encryptor_drain :: "slice \<Rightarrow> memory \<Rightarrow> AESCBCEncryptor \<Rightarrow> error + bytes" where
  "Encryptor_drain p m e =
     (case Encryptor_Read p m e of
        (Inl err, e', m') \<Rightarrow> (if err = EOF then Inr [] else Inl err)
      | (Inr n, e', m') \<Rightarrow>
          if n = 0 then Inr []
          else (case Encryptor_drain p m' e' of
                  Inl err \<Rightarrow> Inl err
                | Inr rest \<Rightarrow> Inr (take n (slice_bytes m' p) @ rest)))"
  by pat_completeness auto
termination
  apply (relation "measure (\<lambda>(p, m, e). length (AESCBCEncryptor.outputoverflow e))")
   apply simp
  apply (auto simp: Encryptor_Read_def copy_def Let_def split: if_splits)
  done

function Decryptor_drain :: "slice \<Rightarrow> memory \<Rightarrow> AESCBCDecryptor \<Rightarrow> error + bytes" where
  "Decryptor_drain p m e =
     (case Decryptor_Read p m e of
        (Inl err, e', m') \<Rightarrow> (if err = EOF then Inr [] else Inl err)
      | (Inr n, e', m') \<Rightarrow>
          if n = 0 then Inr []
          else (case Decryptor_drain p m' e' of
                  Inl err \<Rightarrow> Inl err
                | Inr rest \<Rightarrow> Inr (take n (slice_bytes m' p) @ rest)))"
  by pat_completeness auto
termination
  apply (relation "measure (\<lambda>(p, m, e). length (AESCBCDecryptor.outputoverflow e))")
   apply simp
  apply (auto simp: Decryptor_Read_def copy_def Let_def split: if_splits)
  done

text \<open>
  \<open>encrypt_stream\<close>: with the payload \<open>concat chunks\<close> in memory from address 0 on,
  write the chunks, close, and drain into a buffer of \<open>len_p\<close> bytes that lies behind
  the payload. \<open>decrypt_stream\<close> is its mirror image. Either stops at the first error
  or panic.
\<close>

definition encrypt_stream :: "nat \<Rightarrow> bytes list \<Rightarrow> AESCBCEncryptor \<Rightarrow> error + bytes" where
  "encrypt_stream len_p chunks e =
     (let tot = length (concat chunks);
          m0 = store (\<lambda>a. 0) 0 (concat chunks)
      in case Encryptor_write_chunks 0 tot chunks m0 e of
           Inl err \<Rightarrow> Inl err
         | Inr (e1, m1) \<Rightarrow>
             (case Encryptor_Close m1 e1 of
                (Some err, e2, m2) \<Rightarrow> Inl err
              | (None, e2, m2) \<Rightarrow>
                  Encryptor_drain \<lparr> Data = tot, Len = len_p, Cap = len_p \<rparr> m2 e2))"

definition decrypt_stream :: "nat \<Rightarrow> bytes list \<Rightarrow> AESCBCDecryptor \<Rightarrow> error + bytes" where
  "decrypt_stream len_p chunks d =
     (let tot = length (concat chunks);
          m0 = store (\<lambda>a. 0) 0 (concat chunks)
      in case Decryptor_write_chunks 0 tot chunks m0 d of
           Inl err \<Rightarrow> Inl err
         | Inr (d1, m1) \<Rightarrow>
             (case Decryptor_Close d1 of
                (Some err, d2) \<Rightarrow> Inl err
              | (None, d2) \<Rightarrow>
                  Decryptor_drain \<lparr> Data = tot, Len = len_p, Cap = len_p \<rparr> m1 d2))"

text \<open>
  What the properties ask of the cipher: on a block of 16 bytes both transforms return 16
  bytes and \<^verbatim>\<open>Decrypt\<close> undoes \<^verbatim>\<open>Encrypt\<close>.
\<close>

definition block_ok :: "Block \<Rightarrow> bool" where
  "block_ok blk \<longleftrightarrow>
     (\<forall>x. length x = BlockSize \<longrightarrow>
        length (Encrypt blk x) = BlockSize \<and> length (Decrypt blk x) = BlockSize \<and>
        Decrypt blk (Encrypt blk x) = x)"

text \<open>
  A stand-in cipher for running the model on concrete inputs: it adds 1 to every byte
  and reverses the block.
\<close>

definition toy_cipher :: "bytes \<Rightarrow> Block" where
  "toy_cipher key =
     \<lparr> Encrypt = (\<lambda>x. rev (map (\<lambda>v. v + 1) x)),
       Decrypt = (\<lambda>x. rev (map (\<lambda>v. v - 1) x)) \<rparr>"

definition zero_key :: bytes where
  "zero_key = replicate 32 0"

definition zero_iv :: bytes where
  "zero_iv = replicate 16 0"

text \<open>
  The two streams \<^verbatim>\<open>NewAESCBCEncryptor\<close> and \<^verbatim>\<open>NewAESCBCDecryptor\<close> build
  for the stand-in cipher, the all-zero key and the all-zero IV, and a memory of zeros.
\<close>

definition toy_encryptor :: AESCBCEncryptor where
  "toy_encryptor = NewAESCBCEncryptor toy_cipher zero_key zero_iv"

definition toy_decryptor :: AESCBCDecryptor where
  "toy_decryptor =
     \<lparr> iv = zero_iv, aesKey = zero_key, CopyBufferSize = 5 * 1024 * 1024,
       inputoverflow = Own [], outputoverflow = [],
       cipher = toy_cipher zero_key,
       cbc = \<lparr> block = toy_cipher zero_key, chain = zero_iv \<rparr>,
       isClosed = False \<rparr>"

definition zero_memory :: memory where
  "zero_memory = (\<lambda>a. 0)"

text \<open>The five bytes of \<^verbatim>\<open>"hello"\<close> with their padding.\<close>

definition hello_padded :: bytes where
  "hello_padded = [104, 101, 108, 108, 111, 11, 11, 11, 11, 11, 11, 11, 11, 11, 11, 11]"

section \<open>Closed forms used in the statements\<close>

text \<open>
  \<open>padded data\<close> is \<open>data\<close> with its PKCS7 padding for block size 16
  (\<open>Pkcs7Pad_padded\<close> below shows that \<^verbatim>\<open>Pkcs7Pad\<close> computes it). Of the bytes
  \<open>p\<close> that \<^verbatim>\<open>Write\<close> finds before it, input overflow and argument together,
  \<open>retained p\<close> is the tail it holds back, the last \<open>(length p - 1) mod 16 + 1\<close>
  bytes, and \<open>emitted p\<close> the whole blocks before it.
\<close>

definition padded :: "bytes \<Rightarrow> bytes" where
  "padded data =
     data @ replicate (16 - length data mod 16) (word_of_nat (16 - length data mod 16))"

definition retained :: "bytes \<Rightarrow> bytes" where
  "retained p = drop (length p - ((length p - 1) mod 16 + 1)) p"

definition emitted :: "bytes \<Rightarrow> bytes" where
  "emitted p = take (length p - ((length p - 1) mod 16 + 1)) p"

text \<open>
  Where \<^verbatim>\<open>append\<close> can write: nowhere in the caller's memory for a slice of the
  stream's own, and only behind the slice for a view. \<open>out_of_reach b a\<close> says that the
  address \<open>a\<close> is safe from appends to \<open>b\<close>.
\<close>

fun out_of_reach :: "buffer \<Rightarrow> nat \<Rightarrow> bool" where
  "out_of_reach (Own bs) a = True"
| "out_of_reach (View s) a = (a < Data s + Len s)"

text \<open>
  \<open>enc_after e0 X io\<close> is the encryptor \<open>e0\<close> after the bytes \<open>X\<close> have passed
  through \<^verbatim>\<open>Write\<close>, with \<open>io\<close> as its input overflow: the whole blocks
  \<open>emitted X\<close> are encrypted and queued. \<open>ends_at y tot b\<close> says of a view that it
  ends at the address \<open>y\<close> and that its capacity ends at \<open>tot\<close>.
\<close>

definition enc_after :: "AESCBCEncryptor \<Rightarrow> bytes \<Rightarrow> buffer \<Rightarrow> AESCBCEncryptor" where
  "enc_after e0 X io =
     e0\<lparr> AESCBCEncryptor.inputoverflow := io,
         AESCBCEncryptor.cbc := (AESCBCEncryptor.cbc e0)
           \<lparr> chain := snd (encrypt_loop (block (AESCBCEncryptor.cbc e0))
                             (chain (AESCBCEncryptor.cbc e0)) (emitted X)) \<rparr>,
         AESCBCEncryptor.outputoverflow := AESCBCEncryptor.outputoverflow e0 @
           fst (encrypt_loop (block (AESCBCEncryptor.cbc e0))
                             (chain (AESCBCEncryptor.cbc e0)) (emitted X)) \<rparr>"

fun ends_at :: "nat \<Rightarrow> nat \<Rightarrow> buffer \<Rightarrow> bool" where
  "ends_at y tot (Own bs) = True"
| "ends_at y tot (View s) = (Data s + Len s = y \<and> Data s + Cap s = tot)"

section \<open>Properties of the padding codec\<close>

lemma pad_loop_replicate:
  "pad_loop i pl input = input @ replicate (nat (pl - i)) (word_of_int pl)"
proof (induction i pl input rule: pad_loop.induct)
  case (1 i pl input)
  show ?case
  proof (cases "i < pl")
    case True
    then have "nat (pl - i) = Suc (nat (pl - (i + 1)))" by simp
    with True "1" show ?thesis
      by (subst pad_loop.simps) (simp add: replicate_append_same)
  next
    case False
    then show ?thesis by (subst pad_loop.simps) simp
  qed
qed

lemma smod_nat_16: "int n smod 16 = int (n mod 16)"
  by (cases "n = 0") (simp_all add: smod_int_alt_def zmod_int)

lemma Pkcs7Pad_16:
  "Pkcs7Pad data 16 =
     Inr (data @ replicate (16 - length data mod 16) (word_of_nat (16 - length data mod 16)))"
proof -
  have pl: "(16::int) - int (length data) smod 16 = int (16 - length data mod 16)"
    by (simp add: smod_nat_16 of_nat_diff)
  have "pad_loop 0 (int (16 - length data mod 16)) data =
      data @ replicate (16 - length data mod 16) (word_of_nat (16 - length data mod 16))"
    unfolding pad_loop_replicate by (simp del: of_nat_diff)
  then show ?thesis
    unfolding Pkcs7Pad_def Let_def pl by simp
qed

lemma Pkcs7Pad_16_nonempty:
  assumes "Pkcs7Pad data 16 = Inr buf"
  shows "buf \<noteq> []"
  using assms unfolding Pkcs7Pad_16 by auto

lemma padding_loop_cases:
  "padding_loop p n = (if \<forall>x\<in>set p. unat x = n then None else Some ErrInvalidPadding)"
  by (induction p) auto

text \<open>
  What \<^verbatim>\<open>Pkcs7Unpad\<close> does on a non-empty buffer, in one equation: with \<open>n\<close> the
  value of the last byte, it strips \<open>n\<close> bytes when the buffer has that many and the
  last \<open>n\<close> all equal the last byte, and fails otherwise. Nothing bounds \<open>n\<close> by a
  block size, and \<open>n = 0\<close> passes.
\<close>

lemma Pkcs7Unpad_cases:
  assumes "input \<noteq> []"
  shows "Pkcs7Unpad input =
    (if unat (last input) \<le> length input \<and>
        list_all (\<lambda>x. x = last input) (drop (length input - unat (last input)) input)
     then Inr (take (length input - unat (last input)) input)
     else Inl ErrInvalidPadding)"
proof -
  let ?n = "unat (last input)"
  let ?p = "drop (length input - ?n) input"
  have lt: "(int (length input) < uint (last input)) = (length input < ?n)"
    unfolding uint_nat by (simp only: of_nat_less_iff)
  have nonneg: "\<not> uint (last input) < 0" by simp
  have chk: "checkPaddingIsValid input (uint (last input)) =
      (if length input < ?n then Some ErrInvalidPadding else padding_loop ?p (length ?p))"
    unfolding checkPaddingIsValid_def Let_def lt using nonneg by simp
  show ?thesis
  proof (cases "?n \<le> length input")
    case True
    then have len: "length ?p = ?n" by simp
    have "(\<forall>x\<in>set ?p. unat x = ?n) \<longleftrightarrow> (\<forall>x\<in>set ?p. x = last input)"
      by (metis unsigned_word_eqI)
    with True assms show ?thesis
      unfolding Pkcs7Unpad_def Let_def chk len
      by (simp add: padding_loop_cases list_all_iff)
  next
    case False
    with assms show ?thesis
      unfolding Pkcs7Unpad_def Let_def chk
      by simp
  qed
qed

lemma Pkcs7Unpad_padded:
  assumes "1 \<le> n" "n \<le> 255"
  shows "Pkcs7Unpad (data @ replicate n (word_of_nat n)) = Inr data"
proof -
  let ?b = "word_of_nat n :: byte"
  let ?buf = "data @ replicate n ?b"
  have un: "unat ?b = n" using assms by (simp add: unat_of_nat)
  from assms have ne: "?buf \<noteq> []" by auto
  from assms have last: "last ?buf = ?b" by simp
  have "unat ?b \<le> length ?buf \<and> list_all (\<lambda>x. x = ?b) (drop (length ?buf - unat ?b) ?buf)"
    unfolding un by (simp add: list_all_iff)
  with ne show ?thesis
    by (simp add: Pkcs7Unpad_cases last un)
qed

text \<open>
  Claim C2. For every byte sequence \<open>data\<close> of length at most \<open>3 * 16\<close> and block size
  16, \<^verbatim>\<open>Pkcs7Pad\<close> appends \<open>n = 16 - length data mod 16\<close> bytes, between 1 and 16
  of them and never none, each with the value \<open>n\<close>, and \<^verbatim>\<open>Pkcs7Unpad\<close> of the
  padded buffer returns \<open>data\<close> with no error. (The bound on the length is the claim's;
  the proof does not use it.)
\<close>

theorem Pkcs7Unpad_Pkcs7Pad_inverse:
  assumes "length data \<le> 3 * 16" and "n = 16 - length data mod 16"
  shows "1 \<le> n \<and> n \<le> 16 \<and> unat (word_of_nat n :: byte) = n \<and>
         Pkcs7Pad data 16 = Inr (data @ replicate n (word_of_nat n)) \<and>
         Pkcs7Unpad (data @ replicate n (word_of_nat n)) = Inr data"
proof -
  from assms(2) have n: "1 \<le> n" "n \<le> 16" by simp_all
  then have "unat (word_of_nat n :: byte) = n" by (simp add: unat_of_nat)
  moreover have "Pkcs7Pad data 16 = Inr (data @ replicate n (word_of_nat n))"
    unfolding assms(2) by (rule Pkcs7Pad_16)
  moreover have "Pkcs7Unpad (data @ replicate n (word_of_nat n)) = Inr data"
    using n by (intro Pkcs7Unpad_padded) simp_all
  ultimately show ?thesis using n by simp
qed

theorem Pkcs7Unpad_Pkcs7Pad_inverse_witness:
  "Pkcs7Pad [104, 101, 108, 108, 111] 16 =
     Inr ([104, 101, 108, 108, 111] @ replicate 11 11) \<and>
   Pkcs7Unpad ([104, 101, 108, 108, 111] @ replicate 11 11) = Inr [104, 101, 108, 108, 111]"
  using Pkcs7Unpad_Pkcs7Pad_inverse [of "[104, 101, 108, 108, 111]" 11] by simp

text \<open>
  Claim C3, as amended. Take a correctly padded buffer (the result of \<^verbatim>\<open>Pkcs7Pad\<close>
  with block size 16) and change its final byte to \<open>v\<close>. \<^verbatim>\<open>Pkcs7Unpad\<close> then
  strips \<open>v\<close> bytes when the buffer has that many and its last \<open>v\<close> bytes all equal
  \<open>v\<close>, and fails with the padding error otherwise. So every \<open>v\<close> of at least 1 that
  exceeds the length of the buffer, or whose last \<open>v\<close> bytes are not all \<open>v\<close>, is
  rejected, among them every such \<open>v\<close> in \<open>[1, 16]\<close>; no \<open>v\<close> is rejected for
  lying outside \<open>[1, 16]\<close>, since \<^verbatim>\<open>Pkcs7Unpad\<close> knows no block size.
\<close>

theorem Pkcs7Unpad_tampered_final_byte:
  assumes "Pkcs7Pad data 16 = Inr buf" and "buf' = buf[length buf - 1 := v]"
  shows "Pkcs7Unpad buf' =
           (if unat v \<le> length buf' \<and>
               list_all (\<lambda>x. x = v) (drop (length buf' - unat v) buf')
            then Inr (take (length buf' - unat v) buf')
            else Inl ErrInvalidPadding) \<and>
         (1 \<le> unat v \<and>
            (length buf' < unat v \<or>
             \<not> list_all (\<lambda>x. x = v) (drop (length buf' - unat v) buf'))
          \<longrightarrow> Pkcs7Unpad buf' = Inl ErrInvalidPadding)"
proof -
  from assms(1) have ne: "buf \<noteq> []" by (rule Pkcs7Pad_16_nonempty)
  with assms(2) have ne': "buf' \<noteq> []" by simp
  from ne assms(2) have last: "last buf' = v"
    by (simp add: last_conv_nth)
  have main: "Pkcs7Unpad buf' =
           (if unat v \<le> length buf' \<and>
               list_all (\<lambda>x. x = v) (drop (length buf' - unat v) buf')
            then Inr (take (length buf' - unat v) buf')
            else Inl ErrInvalidPadding)"
    using Pkcs7Unpad_cases [OF ne'] unfolding last .
  have "1 \<le> unat v \<and>
            (length buf' < unat v \<or>
             \<not> list_all (\<lambda>x. x = v) (drop (length buf' - unat v) buf'))
         \<longrightarrow> Pkcs7Unpad buf' = Inl ErrInvalidPadding"
    unfolding main by auto
  with main show ?thesis by blast
qed

theorem Pkcs7Unpad_tampered_final_byte_witness:
  "Pkcs7Pad [104, 101, 108, 108, 111] 16 =
     Inr [104, 101, 108, 108, 111, 11, 11, 11, 11, 11, 11, 11, 11, 11, 11, 11] \<and>
   Pkcs7Unpad [104, 101, 108, 108, 111, 11, 11, 11, 11, 11, 11, 11, 11, 11, 11, 3] =
     Inl ErrInvalidPadding"
proof -
  let ?buf = "[104, 101, 108, 108, 111, 11, 11, 11, 11, 11, 11, 11, 11, 11, 11, 11] :: bytes"
  let ?buf' = "[104, 101, 108, 108, 111, 11, 11, 11, 11, 11, 11, 11, 11, 11, 11, 3] :: bytes"
  have pad: "Pkcs7Pad [104, 101, 108, 108, 111] 16 = Inr ?buf"
    by code_simp
  have tampered: "?buf' = ?buf[length ?buf - 1 := 3]"
    by code_simp
  have hyp: "1 \<le> unat (3 :: byte) \<and>
      (length ?buf' < unat (3 :: byte) \<or>
       \<not> list_all (\<lambda>x. x = 3) (drop (length ?buf' - unat (3 :: byte)) ?buf'))"
    by code_simp
  from Pkcs7Unpad_tampered_final_byte [OF pad tampered]
  have "1 \<le> unat (3 :: byte) \<and>
      (length ?buf' < unat (3 :: byte) \<or>
       \<not> list_all (\<lambda>x. x = 3) (drop (length ?buf' - unat (3 :: byte)) ?buf'))
      \<longrightarrow> Pkcs7Unpad ?buf' = Inl ErrInvalidPadding"
    by (elim conjE)
  from this hyp have "Pkcs7Unpad ?buf' = Inl ErrInvalidPadding" by (rule mp)
  with pad show ?thesis by (rule conjI)
qed

text \<open>
  The claim as stated fails at values outside \<open>[1, 16]\<close>. The padding of 31 bytes of
  value 17 is the single byte 1; with that byte changed to 17 the last 17 bytes all equal
  17, and \<^verbatim>\<open>Pkcs7Unpad\<close> returns the first 15 bytes with no error. The padded
  \<^verbatim>\<open>"hello"\<close> with its final byte changed to 0 is returned whole, with no error.
\<close>

theorem Pkcs7Unpad_accepts_final_byte_outside_block:
  "Pkcs7Pad (replicate 31 17) 16 = Inr (replicate 31 17 @ [1]) \<and>
   (replicate 31 17 @ [1 :: byte])[length (replicate 31 (17 :: byte) @ [1]) - 1 := 17] =
     replicate 32 17 \<and>
   Pkcs7Unpad (replicate 32 17) = Inr (replicate 15 17) \<and>
   \<not> unat (17 :: byte) \<le> 16 \<and>
   Pkcs7Pad [104, 101, 108, 108, 111] 16 =
     Inr [104, 101, 108, 108, 111, 11, 11, 11, 11, 11, 11, 11, 11, 11, 11, 11] \<and>
   Pkcs7Unpad [104, 101, 108, 108, 111, 11, 11, 11, 11, 11, 11, 11, 11, 11, 11, 0] =
     Inr [104, 101, 108, 108, 111, 11, 11, 11, 11, 11, 11, 11, 11, 11, 11, 0] \<and>
   \<not> 1 \<le> unat (0 :: byte)"
  by code_simp

section \<open>The CBC loops and the retained tail\<close>

lemma Pkcs7Unpad_error:
  "Pkcs7Unpad input = Inl err \<Longrightarrow> err = ErrInvalidPadding"
proof (cases "input = []")
  case True
  then show "Pkcs7Unpad input = Inl err \<Longrightarrow> err = ErrInvalidPadding"
    by (simp add: Pkcs7Unpad_def)
next
  case False
  from Pkcs7Unpad_cases [OF this]
  show "Pkcs7Unpad input = Inl err \<Longrightarrow> err = ErrInvalidPadding"
    by (simp split: if_splits)
qed

lemma Pkcs7Pad_padded: "Pkcs7Pad data (int BlockSize) = Inr (padded data)"
  using Pkcs7Pad_16 [of data] by (simp add: padded_def)

lemma length_padded: "length (padded data) = length data + (16 - length data mod 16)"
  by (simp add: padded_def)

lemma length_padded_mod: "length (padded data) mod 16 = 0"
  unfolding length_padded by presburger

lemma length_padded_ge: "16 \<le> length (padded data)"
  unfolding length_padded by presburger

lemma xor_bytes_length: "length (xor_bytes x y) = min (length x) (length y)"
  by (simp add: xor_bytes_def)

lemma block_ok_Encrypt_length:
  "block_ok blk \<Longrightarrow> length x = 16 \<Longrightarrow> length (Encrypt blk x) = 16"
  unfolding block_ok_def by blast

lemma block_ok_Decrypt_Encrypt:
  "block_ok blk \<Longrightarrow> length x = 16 \<Longrightarrow> Decrypt blk (Encrypt blk x) = x"
  unfolding block_ok_def by blast

declare encrypt_loop.simps [simp del] decrypt_loop.simps [simp del]

lemma encrypt_loop_Nil: "encrypt_loop blk iv0 [] = ([], iv0)"
  by (subst encrypt_loop.simps) simp

lemma encrypt_loop_step:
  "src \<noteq> [] \<Longrightarrow>
   encrypt_loop blk iv0 src =
     (Encrypt blk (xor_bytes (take 16 src) iv0) @
        fst (encrypt_loop blk (Encrypt blk (xor_bytes (take 16 src) iv0)) (drop 16 src)),
      snd (encrypt_loop blk (Encrypt blk (xor_bytes (take 16 src) iv0)) (drop 16 src)))"
  by (subst encrypt_loop.simps) (simp add: Let_def split: prod.splits)

lemma decrypt_loop_Nil: "decrypt_loop blk iv0 [] = ([], iv0)"
  by (subst decrypt_loop.simps) simp

lemma decrypt_loop_step:
  "src \<noteq> [] \<Longrightarrow>
   decrypt_loop blk iv0 src =
     (xor_bytes (Decrypt blk (take 16 src)) iv0 @
        fst (decrypt_loop blk (take 16 src) (drop 16 src)),
      snd (decrypt_loop blk (take 16 src) (drop 16 src)))"
  by (subst decrypt_loop.simps) (simp add: Let_def split: prod.splits)

lemma encrypt_loop_length:
  "block_ok blk \<Longrightarrow> length iv0 = 16 \<Longrightarrow> length src mod 16 = 0 \<Longrightarrow>
   length (fst (encrypt_loop blk iv0 src)) = length src \<and>
   length (snd (encrypt_loop blk iv0 src)) = 16"
proof (induction blk iv0 src rule: encrypt_loop.induct)
  case (1 blk iv0 src)
  show ?case
  proof (cases "src = []")
    case True
    with "1.prems" show ?thesis by (simp add: encrypt_loop_Nil)
  next
    case False
    let ?c = "Encrypt blk (xor_bytes (take 16 src) iv0)"
    from False "1.prems" have len16: "16 \<le> length src"
      by (cases "length src < 16") auto
    with "1.prems" have x: "length (xor_bytes (take 16 src) iv0) = 16"
      by (simp add: xor_bytes_length)
    with "1.prems"(1) have c: "length ?c = 16" by (rule block_ok_Encrypt_length)
    from len16 "1.prems" have rest: "length (drop 16 src) mod 16 = 0"
      unfolding length_drop by presburger
    from "1.IH" [OF False refl "1.prems"(1) c rest] c len16 show ?thesis
      unfolding encrypt_loop_step [OF False] by simp
  qed
qed

lemma retained_len_le: "0 < n \<Longrightarrow> (n - 1) mod 16 + 1 \<le> (n::nat)"
  using mod_less_eq_dividend [of "n - 1" 16] by linarith

lemma retained_len_aligned: "0 < n \<Longrightarrow> n mod 16 = 0 \<Longrightarrow> (n - 1) mod 16 + 1 = (16::nat)"
  by (cases n) (simp_all add: mod_Suc split: if_splits)

lemma retained_len_unaligned: "n mod 16 \<noteq> 0 \<Longrightarrow> (n - 1) mod 16 + 1 = n mod (16::nat)"
  by (cases n) (simp_all add: mod_Suc split: if_splits)

lemma emitted_len_mod: "(n - ((n - 1) mod 16 + 1)) mod 16 = (0::nat)"
proof (cases n)
  case 0
  then show ?thesis by simp
next
  case (Suc m)
  have "m - m mod 16 = m div 16 * 16" by (simp add: minus_mod_eq_div_mult)
  with Suc show ?thesis by simp
qed

lemma aligned_ge: "n mod 16 = 0 \<Longrightarrow> 0 < n \<Longrightarrow> \<not> n < (16::nat)"
  by auto

lemma floor_len_mod: "(n - n mod 16) mod 16 = (0::nat)"
  by (simp add: minus_mod_eq_div_mult)

lemma emitted_retained: "emitted p @ retained p = p"
  by (simp add: emitted_def retained_def)

lemma length_retained:
  "p \<noteq> [] \<Longrightarrow> length (retained p) = (length p - 1) mod 16 + 1"
  using retained_len_le [of "length p"] by (simp add: retained_def)

lemma length_retained_bounds:
  "p \<noteq> [] \<Longrightarrow> 1 \<le> length (retained p) \<and> length (retained p) \<le> 16"
  by (simp add: length_retained)

lemma length_emitted_mod: "length (emitted p) mod 16 = 0"
  using emitted_len_mod [of "length p"] by (simp add: emitted_def)

lemma length_take_floor_mod: "length (take (length q - length q mod 16) q) mod 16 = 0"
proof -
  have "length (take (length q - length q mod 16) q) = length q - length q mod 16"
    by simp
  then show ?thesis by (simp only: floor_len_mod)
qed

lemma CBCEncrypter_CryptBlocks_eq:
  "length src mod 16 = 0 \<Longrightarrow>
   CBCEncrypter_CryptBlocks x src =
     Inr (fst (encrypt_loop (block x) (chain x) src),
          x\<lparr>chain := snd (encrypt_loop (block x) (chain x) src)\<rparr>)"
  by (simp add: CBCEncrypter_CryptBlocks_def split: prod.splits)

lemma CBCDecrypter_CryptBlocks_eq:
  "length src mod 16 = 0 \<Longrightarrow>
   CBCDecrypter_CryptBlocks x src =
     Inr (fst (decrypt_loop (block x) (chain x) src),
          x\<lparr>chain := snd (decrypt_loop (block x) (chain x) src)\<rparr>)"
  by (simp add: CBCDecrypter_CryptBlocks_def split: prod.splits)

lemma aligned_nonempty_ge: "length a mod 16 = 0 \<Longrightarrow> a \<noteq> [] \<Longrightarrow> 16 \<le> length a"
  using aligned_ge [of "length a"] by simp

lemma encrypt_loop_append:
  "length a mod 16 = 0 \<Longrightarrow>
   encrypt_loop blk c0 (a @ b) =
     (fst (encrypt_loop blk c0 a) @ fst (encrypt_loop blk (snd (encrypt_loop blk c0 a)) b),
      snd (encrypt_loop blk (snd (encrypt_loop blk c0 a)) b))"
proof (induction blk c0 a rule: encrypt_loop.induct)
  case (1 blk c0 a)
  show ?case
  proof (cases "a = []")
    case True
    then show ?thesis by (simp add: encrypt_loop_Nil)
  next
    case False
    with "1.prems" have ge: "16 \<le> length a" by (intro aligned_nonempty_ge)
    then have tk: "take 16 (a @ b) = take 16 a" and dr: "drop 16 (a @ b) = drop 16 a @ b"
      by simp_all
    from ge "1.prems" have rest: "length (drop 16 a) mod 16 = 0"
      by (simp add: le_mod_geq)
    from False have ne: "a @ b \<noteq> []" by simp
    show ?thesis
      unfolding encrypt_loop_step [OF ne] encrypt_loop_step [OF False] tk dr
      using "1.IH" [OF False refl rest] by simp
  qed
qed

lemma retained_Nil_iff: "retained X = [] \<longleftrightarrow> X = []"
proof
  assume r: "retained X = []"
  show "X = []"
  proof (rule ccontr)
    assume "X \<noteq> []"
    from length_retained_bounds [OF this] r show False by simp
  qed
next
  assume "X = []"
  then show "retained X = []" by (simp add: retained_def)
qed

lemma retained_emitted_append:
  assumes "length a mod 16 = 0" and "b \<noteq> []"
  shows "retained (a @ b) = retained b" and "emitted (a @ b) = a @ emitted b"
proof -
  let ?r = "(length b - 1) mod 16 + 1"
  from assms(2) have pos: "0 < length b" by simp
  then have le: "?r \<le> length b" by (rule retained_len_le)
  from pos have "length a + length b - 1 = length a + (length b - 1)" by linarith
  with assms(1) have r: "(length (a @ b) - 1) mod 16 + 1 = ?r"
    by (simp add: mod_add_left_eq [symmetric, of "length a"])
  from le have k: "length (a @ b) - ?r = length a + (length b - ?r)" by simp
  show "retained (a @ b) = retained b"
    unfolding retained_def r k by simp
  show "emitted (a @ b) = a @ emitted b"
    unfolding emitted_def r k by simp
qed

lemma retained_retained:
  assumes "X @ p \<noteq> []"
  shows "retained X @ p \<noteq> []"
    and "retained (retained X @ p) = retained (X @ p)"
    and "emitted (X @ p) = emitted X @ emitted (retained X @ p)"
proof -
  from assms show ne: "retained X @ p \<noteq> []" by (simp add: retained_Nil_iff)
  have "X @ p = (emitted X @ retained X) @ p"
    by (simp only: emitted_retained)
  then have X: "X @ p = emitted X @ (retained X @ p)"
    by (simp only: append_assoc)
  show "retained (retained X @ p) = retained (X @ p)"
    by (simp only: X retained_emitted_append [OF length_emitted_mod ne])
  show "emitted (X @ p) = emitted X @ emitted (retained X @ p)"
    by (simp only: X retained_emitted_append [OF length_emitted_mod ne])
qed

lemma block_ok_toy_cipher: "block_ok (toy_cipher key)"
  by (simp add: block_ok_def toy_cipher_def rev_map [symmetric] comp_def)

lemma padded_emitted_retained: "padded X = emitted X @ padded (retained X)"
proof (cases "X = []")
  case True
  then show ?thesis by (simp add: emitted_def retained_def)
next
  case False
  then have pos: "0 < length X" by simp
  have "length (retained X) mod 16 = length X mod 16"
  proof (cases "length X mod 16 = 0")
    case True
    with retained_len_aligned [OF pos] show ?thesis
      by (simp add: length_retained [OF False])
  next
    case False
    with retained_len_unaligned show ?thesis
      by (simp add: length_retained [OF \<open>X \<noteq> []\<close>])
  qed
  then have "padded (retained X) = retained X @ replicate (16 - length X mod 16)
      (word_of_nat (16 - length X mod 16))"
    by (simp add: padded_def)
  then have "emitted X @ padded (retained X) = (emitted X @ retained X) @
      replicate (16 - length X mod 16) (word_of_nat (16 - length X mod 16))"
    by simp
  then show ?thesis by (simp only: emitted_retained padded_def)
qed

lemma xor_bytes_cancel:
  "length x = length y \<Longrightarrow> xor_bytes (xor_bytes x y) y = x"
  unfolding xor_bytes_def
proof (induction x y rule: list_induct2)
  case Nil
  then show ?case by simp
next
  case (Cons a x b y)
  have "(a XOR b) XOR b = a" by (simp add: xor.assoc)
  with Cons show ?case by simp
qed

lemma decrypt_encrypt_loop:
  "block_ok blk \<Longrightarrow> length c0 = 16 \<Longrightarrow> length src mod 16 = 0 \<Longrightarrow>
   decrypt_loop blk c0 (fst (encrypt_loop blk c0 src)) = (src, snd (encrypt_loop blk c0 src))"
proof (induction blk c0 src rule: encrypt_loop.induct)
  case (1 blk c0 src)
  show ?case
  proof (cases "src = []")
    case True
    then show ?thesis by (simp add: encrypt_loop_Nil decrypt_loop_Nil)
  next
    case False
    let ?x = "xor_bytes (take 16 src) c0"
    let ?c = "Encrypt blk ?x"
    let ?rest = "encrypt_loop blk ?c (drop 16 src)"
    from False "1.prems" have ge: "16 \<le> length src" by (intro aligned_nonempty_ge)
    with "1.prems" have x: "length ?x = 16" by (simp add: xor_bytes_length)
    with "1.prems"(1) have c: "length ?c = 16" by (rule block_ok_Encrypt_length)
    from ge "1.prems" have rest: "length (drop 16 src) mod 16 = 0"
      by (simp add: le_mod_geq)
    from "1.prems"(1) x have dec: "Decrypt blk ?c = ?x" by (rule block_ok_Decrypt_Encrypt)
    from ge "1.prems"(2) have "length (take 16 src) = length c0" by simp
    then have plain: "xor_bytes ?x c0 = take 16 src" by (rule xor_bytes_cancel)
    from c have ne: "?c @ fst ?rest \<noteq> []" by auto
    from c have tk: "take 16 (?c @ fst ?rest) = ?c" and dr: "drop 16 (?c @ fst ?rest) = fst ?rest"
      by simp_all
    show ?thesis
      unfolding encrypt_loop_step [OF False] fst_conv snd_conv
      unfolding decrypt_loop_step [OF ne] tk dr dec plain
      using "1.IH" [OF False refl "1.prems"(1) c rest] by simp
  qed
qed

section \<open>Slices in memory\<close>

lemma length_slice_bytes [simp]: "length (slice_bytes m s) = Len s"
  by (simp add: slice_bytes_def)

lemma length_buf_bytes [simp]: "length (buf_bytes m b) = buf_len b"
  by (cases b) simp_all

lemma store_Nil [simp]: "store m a [] = m"
  by (rule ext) (auto simp: store_def)

lemma store_below: "i < a \<Longrightarrow> store m a xs i = m i"
  by (simp add: store_def)

lemma store_same: "store m a (map m [a ..< a + k]) = m"
  by (rule ext) (auto simp: store_def)

lemma slice_bytes_cong:
  "(\<And>i. Data s \<le> i \<Longrightarrow> i < Data s + Len s \<Longrightarrow> m' i = m i) \<Longrightarrow>
   slice_bytes m' s = slice_bytes m s"
  by (simp add: slice_bytes_def)

lemma slice_bytes_store_behind:
  "Data s + Len s \<le> a \<Longrightarrow> slice_bytes (store m a xs) s = slice_bytes m s"
  by (rule slice_bytes_cong) (simp add: store_def)

lemma slice_bytes_grown:
  "slice_bytes (store m (Data s + Len s) xs) (s\<lparr> Len := Len s + length xs \<rparr>) =
     slice_bytes m s @ xs"
proof (rule nth_equalityI)
  show "length (slice_bytes (store m (Data s + Len s) xs) (s\<lparr> Len := Len s + length xs \<rparr>)) =
      length (slice_bytes m s @ xs)"
    by simp
next
  fix i
  assume "i < length (slice_bytes (store m (Data s + Len s) xs) (s\<lparr> Len := Len s + length xs \<rparr>))"
  then have i: "i < Len s + length xs" by simp
  show "slice_bytes (store m (Data s + Len s) xs) (s\<lparr> Len := Len s + length xs \<rparr>) ! i =
      (slice_bytes m s @ xs) ! i"
  proof (cases "i < Len s")
    case True
    with i show ?thesis
      by (simp add: slice_bytes_def nth_append store_def)
  next
    case False
    then have "Data s + i - (Data s + Len s) = i - Len s" by simp
    with False i show ?thesis
      by (simp add: slice_bytes_def nth_append store_def)
  qed
qed

lemma slice_bytes_stored:
  "length xs \<le> L \<Longrightarrow>
   take (length xs) (slice_bytes (store m a xs) \<lparr> Data = a, Len = L, Cap = c \<rparr>) = xs"
  by (rule nth_equalityI) (simp_all add: slice_bytes_def store_def)

lemma append_buf_len [simp]: "buf_len (fst (append_buf m b xs)) = buf_len b + length xs"
  by (cases b) simp_all

lemma append_buf_bytes:
  "buf_bytes (snd (append_buf m b xs)) (fst (append_buf m b xs)) = buf_bytes m b @ xs"
  by (cases b) (simp_all add: slice_bytes_grown)

lemma buf_upto_bytes:
  "k \<le> buf_len b \<Longrightarrow> buf_bytes m (buf_upto k b) = take k (buf_bytes m b)"
  by (cases b) (simp_all add: slice_bytes_def take_map)

lemma buf_from_bytes:
  "k \<le> buf_len b \<Longrightarrow> buf_bytes m (buf_from k b) = drop k (buf_bytes m b)"
  by (cases b) (simp_all add: slice_bytes_def drop_map)

lemma buf_from_len [simp]: "buf_len (buf_from k b) = buf_len b - k"
  by (cases b) simp_all

lemma append_buf_out_of_reach:
  "out_of_reach b a \<Longrightarrow> snd (append_buf m b xs) a = m a"
  "out_of_reach b a \<Longrightarrow> out_of_reach (fst (append_buf m b xs)) a"
  by (cases b; simp add: store_below)+

lemma buf_bytes_out_of_reach:
  "(\<And>a. out_of_reach b a \<Longrightarrow> m' a = m a) \<Longrightarrow> buf_bytes m' b = buf_bytes m b"
proof (cases b)
  case (Own bs)
  then show ?thesis by simp
next
  case (View s)
  assume r: "\<And>a. out_of_reach b a \<Longrightarrow> m' a = m a"
  have "slice_bytes m' s = slice_bytes m s"
    by (rule slice_bytes_cong) (simp add: r View)
  with View show ?thesis by simp
qed

declare pad_loop_buf.simps [simp del]

lemma pad_loop_buf_props:
  "buf_bytes (snd (pad_loop_buf i pl bm)) (fst (pad_loop_buf i pl bm)) =
     buf_bytes (snd bm) (fst bm) @ replicate (nat (pl - i)) (word_of_int pl) \<and>
   (\<forall>a. out_of_reach (fst bm) a \<longrightarrow> snd (pad_loop_buf i pl bm) a = snd bm a)"
proof (induction i pl bm rule: pad_loop_buf.induct)
  case (1 i pl input m)
  show ?case
  proof (cases "i < pl")
    case False
    then show ?thesis by (subst (1 2 3) pad_loop_buf.simps) simp
  next
    case True
    let ?bm1 = "append_buf m input [word_of_int pl]"
    from True have n: "nat (pl - i) = Suc (nat (pl - (i + 1)))" by simp
    have step: "pad_loop_buf i pl (input, m) = pad_loop_buf (i + 1) pl ?bm1"
      using True by (subst pad_loop_buf.simps) simp
    from "1.IH" [OF True]
    have bytes: "buf_bytes (snd (pad_loop_buf (i + 1) pl ?bm1)) (fst (pad_loop_buf (i + 1) pl ?bm1)) =
        buf_bytes (snd ?bm1) (fst ?bm1) @ replicate (nat (pl - (i + 1))) (word_of_int pl)"
      and reach: "\<And>a. out_of_reach (fst ?bm1) a \<Longrightarrow> snd (pad_loop_buf (i + 1) pl ?bm1) a = snd ?bm1 a"
      by simp_all
    have "buf_bytes (snd (pad_loop_buf i pl (input, m))) (fst (pad_loop_buf i pl (input, m))) =
        buf_bytes m input @ replicate (nat (pl - i)) (word_of_int pl)"
      unfolding step bytes append_buf_bytes n by (simp add: replicate_append_same)
    moreover have "\<And>a. out_of_reach input a \<Longrightarrow> snd (pad_loop_buf i pl (input, m)) a = m a"
      unfolding step using reach append_buf_out_of_reach by simp
    ultimately show ?thesis by simp
  qed
qed

lemma smod_nat_16': "int n smod int BlockSize = int (n mod 16)"
  using smod_nat_16 [of n] by simp

lemma Pkcs7Pad_buf_16:
  "\<exists>p m1. Pkcs7Pad_buf m b (int BlockSize) = Inr (p, m1) \<and>
     buf_bytes m1 p = padded (buf_bytes m b) \<and>
     (\<forall>a. out_of_reach b a \<longrightarrow> m1 a = m a)"
proof -
  let ?pl = "int BlockSize - int (buf_len b) smod int BlockSize"
  let ?r = "pad_loop_buf 0 ?pl (b, m)"
  have pl: "?pl = int (16 - buf_len b mod 16)"
    unfolding smod_nat_16' by (simp add: of_nat_diff)
  have "Pkcs7Pad_buf m b (int BlockSize) = Inr (fst ?r, snd ?r)"
    by (simp add: Pkcs7Pad_buf_def Let_def)
  moreover from pad_loop_buf_props [of 0 ?pl "(b, m)"]
  have "buf_bytes (snd ?r) (fst ?r) = padded (buf_bytes m b)"
    unfolding pl by (simp add: padded_def del: of_nat_diff)
  moreover from pad_loop_buf_props [of 0 ?pl "(b, m)"]
  have "\<forall>a. out_of_reach b a \<longrightarrow> snd ?r a = m a" by simp
  ultimately show ?thesis by blast
qed

text \<open>On a slice of the stream's own the loop is the one of \<open>Pkcs7Pad\<close>.\<close>

lemma Pkcs7Pad_buf_bytes:
  "Pkcs7Pad_buf m (Own bs) (int BlockSize) = Inr (p, m1) \<Longrightarrow>
   Pkcs7Pad bs (int BlockSize) = Inr (buf_bytes m1 p)"
  using Pkcs7Pad_buf_16 [of m "Own bs"] Pkcs7Pad_padded [of bs] by auto

section \<open>One call of a method\<close>

lemma NewAESCBCEncryptor_fresh:
  "\<not> AESCBCEncryptor.isClosed (NewAESCBCEncryptor NewCipher key iv0)"
  "AESCBCEncryptor.inputoverflow (NewAESCBCEncryptor NewCipher key iv0) = Own []"
  "AESCBCEncryptor.outputoverflow (NewAESCBCEncryptor NewCipher key iv0) = []"
  "chain (AESCBCEncryptor.cbc (NewAESCBCEncryptor NewCipher key iv0)) = iv0"
  "block (AESCBCEncryptor.cbc (NewAESCBCEncryptor NewCipher key iv0)) = NewCipher key"
  by (simp_all add: NewAESCBCEncryptor_def)

lemma NewAESCBCDecryptor_fresh:
  assumes "NewAESCBCDecryptor NewCipher key iv0 = Inr d0"
  shows "\<not> AESCBCDecryptor.isClosed d0"
    "AESCBCDecryptor.inputoverflow d0 = Own []"
    "AESCBCDecryptor.outputoverflow d0 = []"
    "chain (AESCBCDecryptor.cbc d0) = iv0"
    "block (AESCBCDecryptor.cbc d0) = NewCipher key"
    "length iv0 = 16" "length key = 32"
  using assms by (auto simp: NewAESCBCDecryptor_def split: if_splits)

lemma New_toy_decryptor:
  "NewAESCBCDecryptor toy_cipher zero_key zero_iv = Inr toy_decryptor"
  by (simp add: NewAESCBCDecryptor_def toy_decryptor_def zero_key_def zero_iv_def)

text \<open>
  Both \<^verbatim>\<open>Write\<close> methods start by joining the input overflow and the argument.
  The joined slice holds the contents of the two, one after the other.
\<close>

lemma joined:
  assumes "(if 0 < buf_len io then append_buf m io (slice_bytes m p0) else (View p0, m)) = (p, m1)"
  shows "buf_bytes m1 p = buf_bytes m io @ slice_bytes m p0"
    and "buf_len p = buf_len io + Len p0"
proof -
  show "buf_bytes m1 p = buf_bytes m io @ slice_bytes m p0"
  proof (cases "0 < buf_len io")
    case True
    with assms have "p = fst (append_buf m io (slice_bytes m p0))"
      and "m1 = snd (append_buf m io (slice_bytes m p0))" by simp_all
    then show ?thesis by (simp only: append_buf_bytes)
  next
    case False
    then have "length (buf_bytes m io) = 0" by simp
    then have "buf_bytes m io = []" by (simp only: length_0_conv)
    with False assms show ?thesis by auto
  qed
  show "buf_len p = buf_len io + Len p0"
  proof (cases "0 < buf_len io")
    case True
    with assms have "p = fst (append_buf m io (slice_bytes m p0))" by simp
    then show ?thesis by simp
  next
    case False
    with assms show ?thesis by auto
  qed
qed

lemma emitted_buf: "emitted (buf_bytes m b) = take (buf_len b - ((buf_len b - 1) mod 16 + 1)) (buf_bytes m b)"
  by (simp add: emitted_def)

lemma retained_buf: "retained (buf_bytes m b) = drop (buf_len b - ((buf_len b - 1) mod 16 + 1)) (buf_bytes m b)"
  by (simp add: retained_def)

lemma Encryptor_Write_eq:
  assumes "\<not> AESCBCEncryptor.isClosed e"
    and j: "(if 0 < buf_len (AESCBCEncryptor.inputoverflow e)
             then append_buf m (AESCBCEncryptor.inputoverflow e) (slice_bytes m p0)
             else (View p0, m)) = (p, m1)"
    and pos: "0 < buf_len p"
  shows "Encryptor_Write p0 m e =
     (Inr (length (emitted (buf_bytes m1 p))),
      e\<lparr> AESCBCEncryptor.inputoverflow :=
           (if buf_len p mod 16 \<noteq> 0 then Own (retained (buf_bytes m1 p))
            else buf_from (buf_len p - 16) p),
         AESCBCEncryptor.cbc := (AESCBCEncryptor.cbc e)
           \<lparr> chain := snd (encrypt_loop (block (AESCBCEncryptor.cbc e))
                             (chain (AESCBCEncryptor.cbc e))
                             (emitted (buf_bytes m1 p))) \<rparr>,
         AESCBCEncryptor.outputoverflow := AESCBCEncryptor.outputoverflow e @
           fst (encrypt_loop (block (AESCBCEncryptor.cbc e))
                             (chain (AESCBCEncryptor.cbc e))
                             (emitted (buf_bytes m1 p))) \<rparr>,
      m1)"
proof -
  let ?c = "buf_bytes m1 p"
  let ?n = "buf_len p"
  show ?thesis
  proof (cases "?n mod 16 = 0")
    case True
    with pos have r: "(?n - 1) mod 16 + 1 = 16" by (intro retained_len_aligned)
    from True pos have ge: "\<not> ?n < 16" by (intro aligned_ge)
    have "buf_bytes m1 (buf_upto (?n - 16) p) = take (?n - 16) ?c"
      by (rule buf_upto_bytes) simp
    also have "\<dots> = emitted ?c" unfolding emitted_buf r ..
    finally have em: "buf_bytes m1 (buf_upto (?n - 16) p) = emitted ?c" .
    from assms(1) True ge show ?thesis
      unfolding Encryptor_Write_def j Let_def encrypt_and_queue_def
      by (simp add: em CBCEncrypter_CryptBlocks_eq length_emitted_mod)
  next
    case False
    then have r: "(?n - 1) mod 16 + 1 = ?n mod 16" by (rule retained_len_unaligned)
    have sz: "?n div 16 * 16 = ?n - ?n mod 16"
      by (simp add: minus_mod_eq_div_mult)
    have ex: "?n - (?n - ?n mod 16) = ?n mod 16"
      by (simp add: mod_le_divisor)
    have "buf_bytes m1 (buf_upto (?n - ?n mod 16) p) = take (?n - ?n mod 16) ?c"
      by (rule buf_upto_bytes) simp
    also have "\<dots> = emitted ?c" unfolding emitted_buf r ..
    finally have em: "buf_bytes m1 (buf_upto (?n - ?n mod 16) p) = emitted ?c" .
    have "buf_bytes m1 (buf_from (?n - ?n mod 16) p) = drop (?n - ?n mod 16) ?c"
      by (rule buf_from_bytes) simp
    also have "\<dots> = retained ?c" unfolding retained_buf r ..
    finally have re: "buf_bytes m1 (buf_from (?n - ?n mod 16) p) = retained ?c" .
    from assms(1) False show ?thesis
      unfolding Encryptor_Write_def j Let_def encrypt_and_queue_def
      by (simp add: sz ex em re CBCEncrypter_CryptBlocks_eq length_emitted_mod)
  qed
qed

lemma Encryptor_Write_kept:
  assumes pos: "0 < buf_len p"
  shows "buf_bytes m1 (if buf_len p mod 16 \<noteq> 0 then Own (retained (buf_bytes m1 p))
                       else buf_from (buf_len p - 16) p) = retained (buf_bytes m1 p)"
    and "buf_len (if buf_len p mod 16 \<noteq> 0 then Own (retained (buf_bytes m1 p))
                  else buf_from (buf_len p - 16) p) = (buf_len p - 1) mod 16 + 1"
proof -
  let ?c = "buf_bytes m1 p"
  let ?n = "buf_len p"
  have ne: "?c \<noteq> []"
  proof
    assume "?c = []"
    then have "length ?c = 0" by (simp only: list.size)
    with pos show False by simp
  qed
  show "buf_bytes m1 (if ?n mod 16 \<noteq> 0 then Own (retained ?c)
                       else buf_from (?n - 16) p) = retained ?c"
  proof (cases "?n mod 16 = 0")
    case True
    with pos have r: "(?n - 1) mod 16 + 1 = 16" by (intro retained_len_aligned)
    have "buf_bytes m1 (buf_from (?n - 16) p) = drop (?n - 16) ?c"
      by (rule buf_from_bytes) simp
    also have "\<dots> = retained ?c" unfolding retained_buf r ..
    finally show ?thesis using True by simp
  next
    case False
    then show ?thesis by simp
  qed
  show "buf_len (if ?n mod 16 \<noteq> 0 then Own (retained ?c)
                  else buf_from (?n - 16) p) = (?n - 1) mod 16 + 1"
  proof (cases "?n mod 16 = 0")
    case True
    with pos have r: "(?n - 1) mod 16 + 1 = 16" by (intro retained_len_aligned)
    from True pos have ge: "\<not> ?n < 16" by (intro aligned_ge)
    from True ge show ?thesis unfolding r by simp
  next
    case False
    with length_retained [OF ne] show ?thesis by simp
  qed
qed

lemma Encryptor_Write_empty:
  assumes "\<not> AESCBCEncryptor.isClosed e"
    and "buf_len (AESCBCEncryptor.inputoverflow e) = 0" and "Len p0 = 0"
  shows "Encryptor_Write p0 m e = (Inl PanicSliceBounds, e, m)"
  using assms by (simp add: Encryptor_Write_def)

lemma Decryptor_Write_eq:
  assumes "\<not> AESCBCDecryptor.isClosed d"
    and j: "(if 0 < buf_len (AESCBCDecryptor.inputoverflow d)
             then append_buf m (AESCBCDecryptor.inputoverflow d) (slice_bytes m p0)
             else (View p0, m)) = (p, m1)"
  shows "Decryptor_Write p0 m d =
     (Inr (buf_len p - buf_len p mod 16),
      d\<lparr> AESCBCDecryptor.inputoverflow :=
           (if buf_len p mod 16 \<noteq> 0 then buf_from (buf_len p - buf_len p mod 16) p
            else if 0 < buf_len (AESCBCDecryptor.inputoverflow d) then Own []
            else AESCBCDecryptor.inputoverflow d),
         AESCBCDecryptor.cbc := (AESCBCDecryptor.cbc d)
           \<lparr> chain := snd (decrypt_loop (block (AESCBCDecryptor.cbc d))
                             (chain (AESCBCDecryptor.cbc d))
                             (take (buf_len p - buf_len p mod 16) (buf_bytes m1 p))) \<rparr>,
         AESCBCDecryptor.outputoverflow := AESCBCDecryptor.outputoverflow d @
           fst (decrypt_loop (block (AESCBCDecryptor.cbc d))
                             (chain (AESCBCDecryptor.cbc d))
                             (take (buf_len p - buf_len p mod 16) (buf_bytes m1 p))) \<rparr>,
      m1)"
proof -
  let ?c = "buf_bytes m1 p"
  let ?n = "buf_len p"
  show ?thesis
  proof (cases "?n mod 16 = 0")
    case True
    have tk: "take ?n ?c = ?c" by simp
    from True have md: "length ?c mod 16 = 0" by simp
    from assms(1) True show ?thesis
      unfolding Decryptor_Write_def j Let_def decrypt_and_queue_def
      by (simp add: tk CBCDecrypter_CryptBlocks_eq [OF md])
  next
    case False
    have sz: "?n div 16 * 16 = ?n - ?n mod 16"
      by (simp add: minus_mod_eq_div_mult)
    have ex: "?n - (?n - ?n mod 16) = ?n mod 16"
      by (simp add: mod_le_divisor)
    have up: "buf_bytes m1 (buf_upto (?n - ?n mod 16) p) = take (?n - ?n mod 16) ?c"
      by (rule buf_upto_bytes) simp
    have "length (take (length ?c - length ?c mod 16) ?c) mod 16 = 0"
      by (rule length_take_floor_mod)
    then have md: "length (take (?n - ?n mod 16) ?c) mod 16 = 0" by simp
    have lk: "length (take (?n - ?n mod 16) ?c) = ?n - ?n mod 16" by simp
    from assms(1) False show ?thesis
      unfolding Decryptor_Write_def j Let_def decrypt_and_queue_def
      by (simp add: sz ex up CBCDecrypter_CryptBlocks_eq [OF md] lk del: length_take)
  qed
qed

lemma Decryptor_Write_kept:
  "buf_len (if buf_len p mod 16 \<noteq> 0 then buf_from (buf_len p - buf_len p mod 16) p
            else if 0 < buf_len io then Own [] else io) =
     (if buf_len p mod 16 \<noteq> 0 then buf_len p mod 16 else if 0 < buf_len io then 0 else buf_len io)"
  by (simp add: mod_le_divisor)

text \<open>The lengths after one successful \<^verbatim>\<open>Write\<close>.\<close>

lemma Decryptor_Write_open:
  assumes "\<not> AESCBCDecryptor.isClosed d" and "Decryptor_Write p0 m d = (r, d', m')"
  shows "\<not> AESCBCDecryptor.isClosed d' \<and>
         buf_len (AESCBCDecryptor.inputoverflow d') =
           (buf_len (AESCBCDecryptor.inputoverflow d) + Len p0) mod 16 \<and>
         (\<exists>n. r = Inr n)"
proof -
  let ?io = "AESCBCDecryptor.inputoverflow d"
  obtain p m1 where j: "(if 0 < buf_len ?io then append_buf m ?io (slice_bytes m p0)
                         else (View p0, m)) = (p, m1)"
    by (cases "if 0 < buf_len ?io then append_buf m ?io (slice_bytes m p0) else (View p0, m)")
  from joined(2) [OF j] have n: "buf_len p = buf_len ?io + Len p0" .
  have k: "(if buf_len p mod 16 \<noteq> 0 then buf_len p mod 16 else if 0 < buf_len ?io then 0 else buf_len ?io)
      = buf_len p mod 16"
    using n by simp
  from assms(2) have d': "d' = fst (snd (Decryptor_Write p0 m d))"
    and r: "r = fst (Decryptor_Write p0 m d)" by simp_all
  have "\<not> AESCBCDecryptor.isClosed d'"
    unfolding d' Decryptor_Write_eq [OF assms(1) j] using assms(1) by simp
  moreover have "buf_len (AESCBCDecryptor.inputoverflow d') = buf_len p mod 16"
    unfolding d' Decryptor_Write_eq [OF assms(1) j]
    using Decryptor_Write_kept [of p ?io] k by simp
  moreover have "\<exists>n. r = Inr n"
    unfolding r Decryptor_Write_eq [OF assms(1) j] by simp
  ultimately show ?thesis unfolding n by simp
qed

lemma Encryptor_Write_len:
  assumes "\<not> AESCBCEncryptor.isClosed e" and w: "Encryptor_Write p0 m e = (Inr n, e', m')"
  shows "\<not> AESCBCEncryptor.isClosed e' \<and>
         0 < buf_len (AESCBCEncryptor.inputoverflow e) + Len p0 \<and>
         buf_len (AESCBCEncryptor.inputoverflow e') =
           (buf_len (AESCBCEncryptor.inputoverflow e) + Len p0 - 1) mod 16 + 1"
proof -
  let ?io = "AESCBCEncryptor.inputoverflow e"
  obtain p m1 where j: "(if 0 < buf_len ?io then append_buf m ?io (slice_bytes m p0)
                         else (View p0, m)) = (p, m1)"
    by (cases "if 0 < buf_len ?io then append_buf m ?io (slice_bytes m p0) else (View p0, m)")
  from joined(2) [OF j] have n: "buf_len p = buf_len ?io + Len p0" .
  have pos: "0 < buf_len p"
  proof (rule ccontr)
    assume "\<not> 0 < buf_len p"
    with n have "buf_len ?io = 0" "Len p0 = 0" by simp_all
    from Encryptor_Write_empty [OF assms(1) this] w show False by simp
  qed
  from w have e': "e' = fst (snd (Encryptor_Write p0 m e))" by simp
  have "\<not> AESCBCEncryptor.isClosed e'"
    unfolding e' Encryptor_Write_eq [OF assms(1) j pos] using assms(1) by simp
  moreover have "buf_len (AESCBCEncryptor.inputoverflow e') = (buf_len p - 1) mod 16 + 1"
    unfolding e' Encryptor_Write_eq [OF assms(1) j pos]
    using Encryptor_Write_kept(2) [OF pos, of m1] by simp
  ultimately show ?thesis using pos unfolding n by simp
qed

lemma mod_chain: "0 < a \<Longrightarrow> ((a - 1) mod 16 + 1 + b - 1) mod 16 = (a + b - 1) mod (16::nat)"
proof -
  assume "0 < a"
  then have "a + b - 1 = (a - 1) + b" by simp
  moreover have "(a - 1) mod 16 + 1 + b - 1 = (a - 1) mod 16 + b" by simp
  ultimately show ?thesis by (simp only: mod_add_left_eq)
qed

text \<open>Any number of calls, by any caller.\<close>

lemma Encryptor_writes_len:
  "\<not> AESCBCEncryptor.isClosed e0 \<Longrightarrow> Encryptor_writes calls e0 = Inr e \<Longrightarrow>
   \<not> AESCBCEncryptor.isClosed e \<and>
   (calls \<noteq> [] \<longrightarrow>
      0 < buf_len (AESCBCEncryptor.inputoverflow e0) + sum_list (map (\<lambda>c. Len (fst c)) calls) \<and>
      buf_len (AESCBCEncryptor.inputoverflow e) =
        (buf_len (AESCBCEncryptor.inputoverflow e0) + sum_list (map (\<lambda>c. Len (fst c)) calls) - 1) mod 16 + 1)"
proof (induction calls arbitrary: e0)
  case Nil
  then show ?case by simp
next
  case (Cons c calls)
  obtain p m where c: "c = (p, m)" by (cases c)
  obtain r e1 m1 where w: "Encryptor_Write p m e0 = (r, e1, m1)"
    by (cases "Encryptor_Write p m e0")
  from Cons.prems(2) c w obtain n where r: "r = Inr n" by (cases r) simp_all
  from Cons.prems(2) c w r have rest: "Encryptor_writes calls e1 = Inr e" by simp
  let ?k0 = "buf_len (AESCBCEncryptor.inputoverflow e0)"
  let ?k1 = "buf_len (AESCBCEncryptor.inputoverflow e1)"
  let ?n = "sum_list (map (\<lambda>c. Len (fst c)) calls)"
  from Encryptor_Write_len [OF Cons.prems(1) w [unfolded r]]
  have open1: "\<not> AESCBCEncryptor.isClosed e1" and pos: "0 < ?k0 + Len p"
    and k1: "?k1 = (?k0 + Len p - 1) mod 16 + 1" by simp_all
  from Cons.IH [OF open1 rest]
  have open_e: "\<not> AESCBCEncryptor.isClosed e"
    and ih: "calls \<noteq> [] \<Longrightarrow> buf_len (AESCBCEncryptor.inputoverflow e) = (?k1 + ?n - 1) mod 16 + 1"
    by simp_all
  have "buf_len (AESCBCEncryptor.inputoverflow e) = (?k0 + Len p + ?n - 1) mod 16 + 1"
  proof (cases "calls = []")
    case True
    with rest have "e = e1" by simp
    with True k1 show ?thesis by simp
  next
    case False
    from ih [OF False] show ?thesis
      unfolding k1 by (simp only: mod_chain [OF pos])
  qed
  moreover from pos have "0 < ?k0 + Len p + ?n" by simp
  ultimately show ?case using open_e by (simp add: c add.assoc)
qed

lemma Decryptor_writes_open:
  "\<not> AESCBCDecryptor.isClosed d0 \<Longrightarrow> Decryptor_writes calls d0 = Inr d \<Longrightarrow>
   \<not> AESCBCDecryptor.isClosed d \<and>
   (calls \<noteq> [] \<longrightarrow>
      buf_len (AESCBCDecryptor.inputoverflow d) =
        (buf_len (AESCBCDecryptor.inputoverflow d0) + sum_list (map (\<lambda>c. Len (fst c)) calls)) mod 16)"
proof (induction calls arbitrary: d0)
  case Nil
  then show ?case by simp
next
  case (Cons c calls)
  obtain p m where c: "c = (p, m)" by (cases c)
  obtain r d1 m1 where w: "Decryptor_Write p m d0 = (r, d1, m1)"
    by (cases "Decryptor_Write p m d0")
  let ?k0 = "buf_len (AESCBCDecryptor.inputoverflow d0)"
  let ?k1 = "buf_len (AESCBCDecryptor.inputoverflow d1)"
  let ?n = "sum_list (map (\<lambda>c. Len (fst c)) calls)"
  from Decryptor_Write_open [OF Cons.prems(1) w]
  obtain n where open1: "\<not> AESCBCDecryptor.isClosed d1"
    and k1: "?k1 = (?k0 + Len p) mod 16" and r: "r = Inr n" by blast
  from Cons.prems(2) c w r have rest: "Decryptor_writes calls d1 = Inr d" by simp
  from Cons.IH [OF open1 rest]
  have open_d: "\<not> AESCBCDecryptor.isClosed d"
    and ih: "calls \<noteq> [] \<Longrightarrow> buf_len (AESCBCDecryptor.inputoverflow d) = (?k1 + ?n) mod 16"
    by simp_all
  have "buf_len (AESCBCDecryptor.inputoverflow d) = (?k0 + Len p + ?n) mod 16"
  proof (cases "calls = []")
    case True
    with rest have "d = d1" by simp
    with True k1 show ?thesis by simp
  next
    case False
    from ih [OF False] show ?thesis
      unfolding k1 by (simp only: mod_add_left_eq)
  qed
  with open_d show ?case by (simp add: c add.assoc)
qed

text \<open>
  \<^verbatim>\<open>Close\<close> of an encryptor always returns. It pads by \<^verbatim>\<open>append\<close> to the
  input overflow, which can write behind it in the caller's memory and nowhere else.
\<close>

lemma Encryptor_Close_eq:
  "\<exists>m1. Encryptor_Close m e =
     (None,
      e\<lparr> AESCBCEncryptor.cbc := (AESCBCEncryptor.cbc e)
             \<lparr> chain := snd (encrypt_loop (block (AESCBCEncryptor.cbc e))
                               (chain (AESCBCEncryptor.cbc e))
                               (padded (buf_bytes m (AESCBCEncryptor.inputoverflow e)))) \<rparr>,
         AESCBCEncryptor.outputoverflow := AESCBCEncryptor.outputoverflow e @
             fst (encrypt_loop (block (AESCBCEncryptor.cbc e))
                               (chain (AESCBCEncryptor.cbc e))
                               (padded (buf_bytes m (AESCBCEncryptor.inputoverflow e)))),
         AESCBCEncryptor.isClosed := True \<rparr>,
      m1) \<and>
     (\<forall>a. out_of_reach (AESCBCEncryptor.inputoverflow e) a \<longrightarrow> m1 a = m a)"
proof -
  from Pkcs7Pad_buf_16 [of m "AESCBCEncryptor.inputoverflow e"]
  obtain p m1 where pad: "Pkcs7Pad_buf m (AESCBCEncryptor.inputoverflow e) (int BlockSize) = Inr (p, m1)"
    and bytes: "buf_bytes m1 p = padded (buf_bytes m (AESCBCEncryptor.inputoverflow e))"
    and reach: "\<forall>a. out_of_reach (AESCBCEncryptor.inputoverflow e) a \<longrightarrow> m1 a = m a"
    by blast
  have "Encryptor_Close m e =
     (None,
      e\<lparr> AESCBCEncryptor.cbc := (AESCBCEncryptor.cbc e)
             \<lparr> chain := snd (encrypt_loop (block (AESCBCEncryptor.cbc e))
                               (chain (AESCBCEncryptor.cbc e))
                               (padded (buf_bytes m (AESCBCEncryptor.inputoverflow e)))) \<rparr>,
         AESCBCEncryptor.outputoverflow := AESCBCEncryptor.outputoverflow e @
             fst (encrypt_loop (block (AESCBCEncryptor.cbc e))
                               (chain (AESCBCEncryptor.cbc e))
                               (padded (buf_bytes m (AESCBCEncryptor.inputoverflow e)))),
         AESCBCEncryptor.isClosed := True \<rparr>,
      m1)"
    unfolding Encryptor_Close_def pad
    by (simp add: bytes CBCEncrypter_CryptBlocks_eq [OF length_padded_mod])
  with reach show ?thesis by blast
qed

lemma Encryptor_Close_closed:
  "fst (Encryptor_Close m e) = None" "AESCBCEncryptor.isClosed (fst (snd (Encryptor_Close m e)))"
  "AESCBCEncryptor.inputoverflow (fst (snd (Encryptor_Close m e))) = AESCBCEncryptor.inputoverflow e"
  "buf_bytes (snd (snd (Encryptor_Close m e))) (AESCBCEncryptor.inputoverflow e) =
     buf_bytes m (AESCBCEncryptor.inputoverflow e)"
proof -
  from Encryptor_Close_eq [of m e] obtain m1 e1
    where c: "Encryptor_Close m e = (None, e1, m1)"
      and e1: "AESCBCEncryptor.isClosed e1"
        "AESCBCEncryptor.inputoverflow e1 = AESCBCEncryptor.inputoverflow e"
      and reach: "\<And>a. out_of_reach (AESCBCEncryptor.inputoverflow e) a \<Longrightarrow> m1 a = m a"
    by auto
  from c show "fst (Encryptor_Close m e) = None" by simp
  from c e1 show "AESCBCEncryptor.isClosed (fst (snd (Encryptor_Close m e)))" by simp
  from c e1 show "AESCBCEncryptor.inputoverflow (fst (snd (Encryptor_Close m e))) =
      AESCBCEncryptor.inputoverflow e" by simp
  from buf_bytes_out_of_reach [of "AESCBCEncryptor.inputoverflow e" m1 m, OF reach] c
  show "buf_bytes (snd (snd (Encryptor_Close m e))) (AESCBCEncryptor.inputoverflow e) =
     buf_bytes m (AESCBCEncryptor.inputoverflow e)" by simp
qed

text \<open>
  \<^verbatim>\<open>Read\<close> when there is nothing to hand out: an open encryptor with an empty
  queue and an open decryptor holding exactly the 16 retained bytes return no bytes and no
  error and leave the caller's memory as it is; an open decryptor holding fewer than 16
  bytes panics in its slice expression; end of stream is signalled exactly by a closed
  stream with an empty queue.
\<close>

lemma Read_without_output:
  "\<not> AESCBCEncryptor.isClosed e \<Longrightarrow> AESCBCEncryptor.outputoverflow e = [] \<Longrightarrow>
     Encryptor_Read p m e = (Inr 0, e, m)"
  "\<not> AESCBCDecryptor.isClosed d \<Longrightarrow> length (AESCBCDecryptor.outputoverflow d) = 16 \<Longrightarrow>
     Decryptor_Read p m d = (Inr 0, d, m)"
  "\<not> AESCBCDecryptor.isClosed d \<Longrightarrow> length (AESCBCDecryptor.outputoverflow d) < 16 \<Longrightarrow>
     Decryptor_Read p m d = (Inl PanicSliceBounds, d, m)"
  "fst (Encryptor_Read p m e) = Inl EOF \<longleftrightarrow>
     AESCBCEncryptor.isClosed e \<and> AESCBCEncryptor.outputoverflow e = []"
  "fst (Decryptor_Read p m d) = Inl EOF \<longleftrightarrow>
     AESCBCDecryptor.isClosed d \<and> AESCBCDecryptor.outputoverflow d = []"
  by (auto simp: Encryptor_Read_def Decryptor_Read_def copy_def Let_def)

section \<open>Whole streams\<close>

declare Encryptor_drain.simps [simp del] Decryptor_drain.simps [simp del]

lemma slice_bytes_read:
  "length xs \<le> Len p \<Longrightarrow> take (length xs) (slice_bytes (store m (Data p) xs) p) = xs"
  by (cases p) (simp add: slice_bytes_stored)

text \<open>
  Draining a closed stream with a buffer of at least one byte hands out the whole queue,
  whatever the memory holds.
\<close>

lemma Encryptor_drain_closed:
  "AESCBCEncryptor.isClosed e \<Longrightarrow> 0 < Len p \<Longrightarrow>
   Encryptor_drain p m e = Inr (AESCBCEncryptor.outputoverflow e)"
proof (induction p m e rule: Encryptor_drain.induct)
  case (1 p m e)
  let ?out = "AESCBCEncryptor.outputoverflow e"
  show ?case
  proof (cases "?out = []")
    case True
    with "1.prems" show ?thesis
      by (subst Encryptor_drain.simps) (simp add: Encryptor_Read_def)
  next
    case False
    then have ne: "?out \<noteq> []" .
    show ?thesis
    proof (cases "length ?out \<le> Len p")
      case True
      let ?e' = "e\<lparr> AESCBCEncryptor.outputoverflow := take 0 ?out \<rparr>"
      let ?m' = "store m (Data p) ?out"
      from True ne "1.prems" have r: "Encryptor_Read p m e = (Inr (length ?out), ?e', ?m')"
        by (simp add: Encryptor_Read_def copy_def)
      from ne have n0: "length ?out \<noteq> 0" by simp
      from "1.prems" have "Encryptor_drain p ?m' ?e' = Inr []"
        by (subst Encryptor_drain.simps) (simp add: Encryptor_Read_def)
      with ne slice_bytes_read [OF True, of m] show ?thesis
        by (subst Encryptor_drain.simps) (simp add: r)
    next
      case False
      let ?e' = "e\<lparr> AESCBCEncryptor.outputoverflow := drop (Len p) ?out \<rparr>"
      let ?m' = "store m (Data p) (take (Len p) ?out)"
      from False ne "1.prems" have r: "Encryptor_Read p m e = (Inr (Len p), ?e', ?m')"
        by (simp add: Encryptor_Read_def copy_def Let_def min_def)
      from "1.prems" have n0: "Len p \<noteq> 0" by simp
      from "1.IH" [OF r [symmetric] refl refl n0] "1.prems"
      have rest: "Encryptor_drain p ?m' ?e' = Inr (drop (Len p) ?out)" by simp
      from False have "length (take (Len p) ?out) = Len p" by simp
      with slice_bytes_read [of "take (Len p) ?out" p m]
      have "take (Len p) (slice_bytes ?m' p) = take (Len p) ?out" by simp
      with rest n0 show ?thesis
        by (subst Encryptor_drain.simps) (simp add: r)
    qed
  qed
qed

lemma Decryptor_drain_closed:
  "AESCBCDecryptor.isClosed e \<Longrightarrow> 0 < Len p \<Longrightarrow>
   Decryptor_drain p m e = Inr (AESCBCDecryptor.outputoverflow e)"
proof (induction p m e rule: Decryptor_drain.induct)
  case (1 p m e)
  let ?out = "AESCBCDecryptor.outputoverflow e"
  show ?case
  proof (cases "?out = []")
    case True
    with "1.prems" show ?thesis
      by (subst Decryptor_drain.simps) (simp add: Decryptor_Read_def)
  next
    case False
    then have ne: "?out \<noteq> []" .
    show ?thesis
    proof (cases "length ?out \<le> Len p")
      case True
      let ?e' = "e\<lparr> AESCBCDecryptor.outputoverflow := [] \<rparr>"
      let ?m' = "store m (Data p) ?out"
      from True ne "1.prems" have r: "Decryptor_Read p m e = (Inr (length ?out), ?e', ?m')"
        by (simp add: Decryptor_Read_def copy_def Let_def)
      from "1.prems" have "Decryptor_drain p ?m' ?e' = Inr []"
        by (subst Decryptor_drain.simps) (simp add: Decryptor_Read_def)
      with ne slice_bytes_read [OF True, of m] show ?thesis
        by (subst Decryptor_drain.simps) (simp add: r)
    next
      case False
      let ?e' = "e\<lparr> AESCBCDecryptor.outputoverflow := drop (Len p) ?out \<rparr>"
      let ?m' = "store m (Data p) (take (Len p) ?out)"
      from False ne "1.prems" have r: "Decryptor_Read p m e = (Inr (Len p), ?e', ?m')"
        by (simp add: Decryptor_Read_def copy_def Let_def min_def)
      from "1.prems" have n0: "Len p \<noteq> 0" by simp
      from "1.IH" [OF r [symmetric] refl refl n0] "1.prems"
      have rest: "Decryptor_drain p ?m' ?e' = Inr (drop (Len p) ?out)" by simp
      from False have "length (take (Len p) ?out) = Len p" by simp
      with slice_bytes_read [of "take (Len p) ?out" p m]
      have "take (Len p) (slice_bytes ?m' p) = take (Len p) ?out" by simp
      with rest n0 show ?thesis
        by (subst Decryptor_drain.simps) (simp add: r)
    qed
  qed
qed

text \<open>
  The caller that keeps its payload in one array and leaves it alone. Its chunks follow
  one another in the array, so a view the stream has kept ends where the next chunk
  begins: the \<^verbatim>\<open>append\<close> in \<^verbatim>\<open>Write\<close> stays within the capacity and
  writes the bytes of the chunk onto themselves, and the memory does not change.
\<close>

lemma ends_at_buf_from:
  "ends_at y tot b \<Longrightarrow> y \<le> tot \<Longrightarrow> k \<le> buf_len b \<Longrightarrow> ends_at y tot (buf_from k b)"
  by (cases b) auto

lemma joined_in_place:
  assumes "y + l \<le> tot" and "ends_at y tot io"
  shows "\<exists>p. (if 0 < buf_len io
               then append_buf m io (slice_bytes m \<lparr> Data = y, Len = l, Cap = tot - y \<rparr>)
               else (View \<lparr> Data = y, Len = l, Cap = tot - y \<rparr>, m)) = (p, m) \<and>
              ends_at (y + l) tot p"
proof (cases "0 < buf_len io")
  case False
  with assms show ?thesis by simp
next
  case True
  show ?thesis
  proof (cases io)
    case (Own bs)
    with True show ?thesis by simp
  next
    case (View s)
    have c: "slice_bytes m \<lparr> Data = y, Len = l, Cap = tot - y \<rparr> = map m [y ..< y + l]"
      by (simp add: slice_bytes_def)
    from View assms(2) have s: "Data s + Len s = y" "Data s + Cap s = tot" by simp_all
    with assms(1) have fits: "Len s + l \<le> Cap s" by simp
    have "store m (Data s + Len s) (map m [y ..< y + l]) = m"
      unfolding s(1) by (rule store_same)
    with True View fits s show ?thesis
      unfolding c by simp
  qed
qed

lemma enc_after_Nil:
  "AESCBCEncryptor.inputoverflow e0 = io \<Longrightarrow> enc_after e0 [] io = e0"
  by (simp add: enc_after_def retained_def emitted_def encrypt_loop_Nil)

lemma enc_after_Write:
  assumes "\<not> AESCBCEncryptor.isClosed e0"
    and pos: "0 < y + l" and le: "y + l \<le> tot"
    and io: "buf_bytes m io = retained (map m [0 ..< y])"
    and ends: "ends_at y tot io"
  shows "\<exists>n io'.
     Encryptor_Write \<lparr> Data = y, Len = l, Cap = tot - y \<rparr> m (enc_after e0 (map m [0 ..< y]) io) =
       (Inr n, enc_after e0 (map m [0 ..< y + l]) io', m) \<and>
     buf_bytes m io' = retained (map m [0 ..< y + l]) \<and>
     ends_at (y + l) tot io'"
proof -
  let ?p0 = "\<lparr> Data = y, Len = l, Cap = tot - y \<rparr>"
  let ?X = "map m [0 ..< y]"
  let ?c = "map m [y ..< y + l]"
  let ?e = "enc_after e0 ?X io"
  have ioe: "AESCBCEncryptor.inputoverflow ?e = io" by (simp add: enc_after_def)
  have open_e: "\<not> AESCBCEncryptor.isClosed ?e" using assms(1) by (simp add: enc_after_def)
  have c: "slice_bytes m ?p0 = ?c" by (simp add: slice_bytes_def)
  have Xc: "?X @ ?c = map m [0 ..< y + l]"
    by (simp add: upt_add_eq_append [of 0 y l, simplified])
  from pos have ne: "?X @ ?c \<noteq> []" by auto
  from joined_in_place [OF le ends, of m]
  obtain p where j: "(if 0 < buf_len io then append_buf m io (slice_bytes m ?p0)
                      else (View ?p0, m)) = (p, m)"
    and ends_p: "ends_at (y + l) tot p" by blast
  from joined(1) [OF j] have bytes: "buf_bytes m p = retained ?X @ ?c"
    unfolding io c .
  from retained_retained(1) [OF ne] have "retained ?X @ ?c \<noteq> []" .
  then have "0 < length (buf_bytes m p)" unfolding bytes by simp
  then have posp: "0 < buf_len p" by simp
  define io' where "io' = (if buf_len p mod 16 \<noteq> 0 then Own (retained (buf_bytes m p))
              else buf_from (buf_len p - 16) p)"
  from j have j': "(if 0 < buf_len (AESCBCEncryptor.inputoverflow ?e)
                    then append_buf m (AESCBCEncryptor.inputoverflow ?e) (slice_bytes m ?p0)
                    else (View ?p0, m)) = (p, m)"
    unfolding ioe .
  have w0: "Encryptor_Write ?p0 m ?e =
     (Inr (length (emitted (buf_bytes m p))),
      ?e\<lparr> AESCBCEncryptor.inputoverflow := io',
         AESCBCEncryptor.cbc := (AESCBCEncryptor.cbc ?e)
           \<lparr> chain := snd (encrypt_loop (block (AESCBCEncryptor.cbc ?e))
                             (chain (AESCBCEncryptor.cbc ?e))
                             (emitted (buf_bytes m p))) \<rparr>,
         AESCBCEncryptor.outputoverflow := AESCBCEncryptor.outputoverflow ?e @
           fst (encrypt_loop (block (AESCBCEncryptor.cbc ?e))
                             (chain (AESCBCEncryptor.cbc ?e))
                             (emitted (buf_bytes m p))) \<rparr>,
      m)"
    unfolding io'_def by (rule Encryptor_Write_eq [OF open_e j' posp])
  have state: "?e\<lparr> AESCBCEncryptor.inputoverflow := io',
         AESCBCEncryptor.cbc := (AESCBCEncryptor.cbc ?e)
           \<lparr> chain := snd (encrypt_loop (block (AESCBCEncryptor.cbc ?e))
                             (chain (AESCBCEncryptor.cbc ?e))
                             (emitted (retained ?X @ ?c))) \<rparr>,
         AESCBCEncryptor.outputoverflow := AESCBCEncryptor.outputoverflow ?e @
           fst (encrypt_loop (block (AESCBCEncryptor.cbc ?e))
                             (chain (AESCBCEncryptor.cbc ?e))
                             (emitted (retained ?X @ ?c))) \<rparr> =
      enc_after e0 (?X @ ?c) io'"
    by (simp add: enc_after_def retained_retained(3) [OF ne]
          encrypt_loop_append [OF length_emitted_mod])
  have w: "Encryptor_Write ?p0 m ?e =
      (Inr (length (emitted (retained ?X @ ?c))), enc_after e0 (?X @ ?c) io', m)"
    unfolding w0 bytes state ..
  have "buf_bytes m io' = retained (buf_bytes m p)"
    unfolding io'_def by (rule Encryptor_Write_kept(1) [OF posp])
  then have kept: "buf_bytes m io' = retained (?X @ ?c)"
    unfolding bytes retained_retained(2) [OF ne] .
  from le have le': "y + l \<le> tot" .
  have "ends_at (y + l) tot io'"
    unfolding io'_def using ends_at_buf_from [OF ends_p le', of "buf_len p - 16"] by simp
  with w kept show ?thesis unfolding Xc by blast
qed

lemma Encryptor_write_chunks_after:
  assumes "\<not> AESCBCEncryptor.isClosed e0"
  shows "(y = 0 \<longrightarrow> \<not> (cs \<noteq> [] \<and> hd cs = [])) \<Longrightarrow> y + length (concat cs) \<le> tot \<Longrightarrow>
     buf_bytes m io = retained (map m [0 ..< y]) \<Longrightarrow> ends_at y tot io \<Longrightarrow>
     \<exists>io'. Encryptor_write_chunks y tot cs m (enc_after e0 (map m [0 ..< y]) io) =
              Inr (enc_after e0 (map m [0 ..< y + length (concat cs)]) io', m) \<and>
            buf_bytes m io' = retained (map m [0 ..< y + length (concat cs)]) \<and>
            ends_at (y + length (concat cs)) tot io'"
proof (induction cs arbitrary: y io)
  case Nil
  then show ?case by auto
next
  case (Cons c cs)
  from Cons.prems(1) have pos: "0 < y + length c" by (cases "y = 0") simp_all
  from Cons.prems(2) have le: "y + length c \<le> tot" by simp
  from enc_after_Write [OF assms pos le Cons.prems(3) Cons.prems(4)]
  obtain n io1 where w: "Encryptor_Write \<lparr> Data = y, Len = length c, Cap = tot - y \<rparr> m
        (enc_after e0 (map m [0 ..< y]) io) =
        (Inr n, enc_after e0 (map m [0 ..< y + length c]) io1, m)"
    and io1: "buf_bytes m io1 = retained (map m [0 ..< y + length c])"
    and ends1: "ends_at (y + length c) tot io1" by blast
  from pos have first: "y + length c = 0 \<longrightarrow> \<not> (cs \<noteq> [] \<and> hd cs = [])" by auto
  from Cons.prems(2) have le2: "y + length c + length (concat cs) \<le> tot" by simp
  from Cons.IH [OF first le2 io1 ends1] w show ?case
    by (simp add: add.assoc)
qed

lemma map_store_0: "map (store m 0 xs) [0 ..< length xs] = xs"
  by (rule nth_equalityI) (simp_all add: store_def)

text \<open>
  For this caller the input overflow holds the tail of what has been written (for a caller
  that stores into its array between the calls it need not: the last two lemmas of this
  section).
\<close>

lemma Encryptor_write_chunks_New:
  assumes "\<not> (chunks \<noteq> [] \<and> hd chunks = [])"
  shows "\<exists>io. Encryptor_write_chunks 0 (length (concat chunks)) chunks
                 (store m 0 (concat chunks)) (NewAESCBCEncryptor NewCipher key iv0) =
               Inr (enc_after (NewAESCBCEncryptor NewCipher key iv0) (concat chunks) io,
                    store m 0 (concat chunks)) \<and>
              buf_bytes (store m 0 (concat chunks)) io = retained (concat chunks)"
proof -
  let ?e0 = "NewAESCBCEncryptor NewCipher key iv0"
  let ?P = "concat chunks"
  let ?m = "store m 0 ?P"
  have open0: "\<not> AESCBCEncryptor.isClosed ?e0" by (rule NewAESCBCEncryptor_fresh)
  have e0: "enc_after ?e0 (map ?m [0 ..< 0]) (Own []) = ?e0"
    by (simp add: enc_after_Nil NewAESCBCEncryptor_fresh)
  from assms have first: "(0::nat) = 0 \<longrightarrow> \<not> (chunks \<noteq> [] \<and> hd chunks = [])" by simp
  have le: "0 + length ?P \<le> length ?P" by simp
  have io: "buf_bytes ?m (Own []) = retained (map ?m [0 ..< 0])" by (simp add: retained_def)
  have ends: "ends_at 0 (length ?P) (Own [])" by simp
  from Encryptor_write_chunks_after [OF open0 first le io ends]
  show ?thesis unfolding e0 by (auto simp: map_store_0)
qed

text \<open>
  Writing chunks to a new encryptor, none before a non-empty one being empty, then
  closing and draining, yields the CBC encryption of the padded concatenation.
\<close>

lemma encrypt_stream_New:
  assumes "0 < len_p" and "\<not> (chunks \<noteq> [] \<and> hd chunks = [])"
  shows "encrypt_stream len_p chunks (NewAESCBCEncryptor NewCipher key iv0) =
           Inr (fst (encrypt_loop (NewCipher key) iv0 (padded (concat chunks))))"
proof -
  let ?e0 = "NewAESCBCEncryptor NewCipher key iv0"
  let ?X = "concat chunks"
  let ?m0 = "store (\<lambda>a. 0) 0 ?X"
  let ?buf = "\<lparr> Data = length ?X, Len = len_p, Cap = len_p \<rparr>"
  from Encryptor_write_chunks_New [OF assms(2), of "\<lambda>a. 0" NewCipher key iv0]
  obtain io where w: "Encryptor_write_chunks 0 (length ?X) chunks ?m0 ?e0 =
      Inr (enc_after ?e0 ?X io, ?m0)"
    and io: "buf_bytes ?m0 io = retained ?X" by blast
  let ?e1 = "enc_after ?e0 ?X io"
  have io1: "AESCBCEncryptor.inputoverflow ?e1 = io" by (simp add: enc_after_def)
  from Encryptor_Close_eq [of ?m0 ?e1]
  obtain m2 e2 where c: "Encryptor_Close ?m0 ?e1 = (None, e2, m2)"
    and e2: "e2 = ?e1\<lparr> AESCBCEncryptor.cbc := (AESCBCEncryptor.cbc ?e1)
             \<lparr> chain := snd (encrypt_loop (block (AESCBCEncryptor.cbc ?e1))
                               (chain (AESCBCEncryptor.cbc ?e1))
                               (padded (retained ?X))) \<rparr>,
         AESCBCEncryptor.outputoverflow := AESCBCEncryptor.outputoverflow ?e1 @
             fst (encrypt_loop (block (AESCBCEncryptor.cbc ?e1))
                               (chain (AESCBCEncryptor.cbc ?e1))
                               (padded (retained ?X))),
         AESCBCEncryptor.isClosed := True \<rparr>"
    unfolding io1 io by blast
  from e2 have closed: "AESCBCEncryptor.isClosed e2" by simp
  have "AESCBCEncryptor.outputoverflow e2 =
      fst (encrypt_loop (NewCipher key) iv0 (emitted ?X)) @
      fst (encrypt_loop (NewCipher key) (snd (encrypt_loop (NewCipher key) iv0 (emitted ?X)))
             (padded (retained ?X)))"
    unfolding e2 by (simp add: enc_after_def NewAESCBCEncryptor_fresh)
  also have "\<dots> = fst (encrypt_loop (NewCipher key) iv0 (emitted ?X @ padded (retained ?X)))"
    by (simp add: encrypt_loop_append [OF length_emitted_mod])
  also have "\<dots> = fst (encrypt_loop (NewCipher key) iv0 (padded ?X))"
    by (simp only: padded_emitted_retained [symmetric])
  finally have out: "AESCBCEncryptor.outputoverflow e2 =
      fst (encrypt_loop (NewCipher key) iv0 (padded ?X))" .
  from assms(1) have "0 < Len ?buf" by simp
  from Encryptor_drain_closed [OF closed this, of m2] out
  have "Encryptor_drain ?buf m2 e2 = Inr (fst (encrypt_loop (NewCipher key) iv0 (padded ?X)))"
    by simp
  with w c show ?thesis
    by (simp add: encrypt_stream_def)
qed

lemma decrypt_stream_New:
  assumes "block_ok (NewCipher key)" and "NewAESCBCDecryptor NewCipher key iv0 = Inr d0"
    and "0 < len_p"
  shows "decrypt_stream len_p [fst (encrypt_loop (NewCipher key) iv0 (padded P))] d0 = Inr P"
proof -
  let ?blk = "NewCipher key"
  let ?C = "fst (encrypt_loop ?blk iv0 (padded P))"
  let ?m0 = "store (\<lambda>a. 0) 0 ?C"
  let ?p0 = "\<lparr> Data = 0, Len = length ?C, Cap = length ?C \<rparr>"
  let ?buf = "\<lparr> Data = length ?C, Len = len_p, Cap = len_p \<rparr>"
  note fresh = NewAESCBCDecryptor_fresh [OF assms(2)]
  from encrypt_loop_length [OF assms(1) fresh(6) length_padded_mod, of P]
  have lenC: "length ?C = length (padded P)" by simp
  then have modC: "length ?C mod 16 = 0" by (simp only: length_padded_mod)
  from decrypt_encrypt_loop [OF assms(1) fresh(6) length_padded_mod, of P]
  have dec: "fst (decrypt_loop ?blk iv0 ?C) = padded P" by simp
  have j: "(if 0 < buf_len (AESCBCDecryptor.inputoverflow d0)
            then append_buf ?m0 (AESCBCDecryptor.inputoverflow d0) (slice_bytes ?m0 ?p0)
            else (View ?p0, ?m0)) = (View ?p0, ?m0)"
    by (simp add: fresh)
  have bytes: "buf_bytes ?m0 (View ?p0) = ?C"
    by (simp add: slice_bytes_def map_store_0)
  have len: "buf_len (View ?p0) = length ?C" by simp
  obtain n d1 where w: "Decryptor_Write ?p0 ?m0 d0 = (Inr n, d1, ?m0)"
    and d1: "d1 = fst (snd (Decryptor_Write ?p0 ?m0 d0))"
    by (simp add: Decryptor_Write_eq [OF fresh(1) j])
  have out1: "AESCBCDecryptor.outputoverflow d1 = padded P"
    unfolding d1 Decryptor_Write_eq [OF fresh(1) j] bytes len
    by (simp add: fresh modC dec)
  have unpad: "Pkcs7Unpad (padded P) = Inr P"
    unfolding padded_def by (rule Pkcs7Unpad_padded) simp_all
  from length_padded_ge [of P] have ge: "\<not> length (padded P) < 16" by simp
  obtain d2 where c: "Decryptor_Close d1 = (None, d2)"
    and d2: "d2 = d1\<lparr> AESCBCDecryptor.outputoverflow := P, AESCBCDecryptor.isClosed := True \<rparr>"
    by (simp add: Decryptor_Close_def out1 unpad ge)
  from d2 have closed: "AESCBCDecryptor.isClosed d2" by simp
  from assms(3) have "0 < Len ?buf" by simp
  from Decryptor_drain_closed [OF closed this, of ?m0] d2
  have "Decryptor_drain ?buf ?m0 d2 = Inr P" by simp
  with w c show ?thesis
    by (simp add: decrypt_stream_def)
qed

text \<open>
  What holds of the round trip and of the streaming equivalence: both are theorems as
  soon as the first \<^verbatim>\<open>Write\<close> carries at least one byte (and the read buffers
  hold at least one byte), for a caller that leaves its payload alone until
  \<^verbatim>\<open>Close\<close> has returned.
\<close>

lemma roundtrip_nonempty:
  assumes "block_ok (NewCipher key)" and "NewAESCBCDecryptor NewCipher key iv0 = Inr d0"
    and "P \<noteq> []" and "0 < len_e" and "0 < len_d"
  shows "\<exists>C. encrypt_stream len_e [P] (NewAESCBCEncryptor NewCipher key iv0) = Inr C \<and>
             decrypt_stream len_d [C] d0 = Inr P"
proof -
  from assms(3) have "\<not> ([P] \<noteq> [] \<and> hd [P] = [])" by simp
  from encrypt_stream_New [OF assms(4) this, of NewCipher key iv0]
  have "encrypt_stream len_e [P] (NewAESCBCEncryptor NewCipher key iv0) =
      Inr (fst (encrypt_loop (NewCipher key) iv0 (padded P)))"
    by simp
  with decrypt_stream_New [OF assms(1,2,5), of P] show ?thesis by blast
qed

lemma streaming_equivalence_nonempty:
  assumes "chunks \<noteq> []" and "hd chunks \<noteq> []" and "0 < len_p"
  shows "encrypt_stream len_p chunks (NewAESCBCEncryptor NewCipher key iv0) =
         encrypt_stream len_p [concat chunks] (NewAESCBCEncryptor NewCipher key iv0)"
proof -
  from assms(1,2) have "concat chunks \<noteq> []" by (cases chunks) simp_all
  then have one: "\<not> ([concat chunks] \<noteq> [] \<and> hd [concat chunks] = [])" by simp
  from assms(2) have many: "\<not> (chunks \<noteq> [] \<and> hd chunks = [])" by simp
  show ?thesis
    unfolding encrypt_stream_New [OF assms(3) many] encrypt_stream_New [OF assms(3) one]
    by simp
qed

lemma roundtrip_hello:
  "encrypt_stream 16 [[104, 101, 108, 108, 111]] toy_encryptor =
     Inr [12, 12, 12, 12, 12, 12, 12, 12, 12, 12, 12, 112, 109, 109, 102, 105] \<and>
   decrypt_stream 16 [[12, 12, 12, 12, 12, 12, 12, 12, 12, 12, 12, 112, 109, 109, 102, 105]]
     toy_decryptor = Inr [104, 101, 108, 108, 111]"
  by code_simp

subsection \<open>A caller that stores into its array between the calls\<close>

text \<open>
  The block an aligned \<^verbatim>\<open>Write\<close> of the encryptor retains, and the extra bytes an
  unaligned \<^verbatim>\<open>Write\<close> of the decryptor retains, are sub-slices of the caller's
  slice. A caller writes 16 bytes of value 65 from its array and then fills the array with
  the value 66: the encryptor's input overflow is the view of those 16 addresses and now
  holds the new bytes. The same with 5 bytes and the decryptor.
\<close>

lemma Encryptor_InputOverflow_shared:
  "(let s = \<lparr> Data = 0, Len = 16, Cap = 16 \<rparr>;
        m0 = store zero_memory 0 (replicate 16 65);
        (r, e1, m1) = Encryptor_Write s m0 toy_encryptor;
        m2 = store m1 0 (replicate 16 66)
    in r = Inr 0 \<and> AESCBCEncryptor.inputoverflow e1 = View s \<and>
       buf_bytes m1 (AESCBCEncryptor.inputoverflow e1) = replicate 16 65 \<and>
       buf_bytes m2 (AESCBCEncryptor.inputoverflow e1) = replicate 16 66)"
  by code_simp

lemma Decryptor_InputOverflow_shared:
  "(let s = \<lparr> Data = 0, Len = 5, Cap = 16 \<rparr>;
        m0 = store zero_memory 0 (replicate 5 65);
        (r, d1, m1) = Decryptor_Write s m0 toy_decryptor;
        m2 = store m1 0 (replicate 5 66)
    in r = Inr 0 \<and> AESCBCDecryptor.inputoverflow d1 = View s \<and>
       buf_bytes m1 (AESCBCDecryptor.inputoverflow d1) = replicate 5 65 \<and>
       buf_bytes m2 (AESCBCDecryptor.inputoverflow d1) = replicate 5 66)"
  by code_simp

text \<open>
  Such a caller gets the ciphertext of other bytes than it wrote. It writes a block of 65s
  from its array, refills the array with 66s, writes it again and closes: the ciphertext
  is the one of two blocks of 66s, not the one of the block of 65s followed by the block
  of 66s. This is how \<^verbatim>\<open>Copy\<close> uses its one buffer: between the calls of
  \<^verbatim>\<open>Write\<close> it refills it from the reader and has \<^verbatim>\<open>Read\<close> put the
  ciphertext into it.
\<close>

lemma encrypt_reused_buffer:
  "(let s = \<lparr> Data = 0, Len = 16, Cap = 16 \<rparr>;
        m0 = store zero_memory 0 (replicate 16 65);
        (r1, e1, m1) = Encryptor_Write s m0 toy_encryptor;
        m2 = store m1 0 (replicate 16 66);
        (r2, e2, m3) = Encryptor_Write s m2 e1;
        (r3, e3, m4) = Encryptor_Close m3 e2
    in r1 = Inr 0 \<and> r2 = Inr 16 \<and> r3 = None \<and>
       Inr (AESCBCEncryptor.outputoverflow e3) =
         encrypt_stream 16 [replicate 16 66, replicate 16 66] toy_encryptor \<and>
       Inr (AESCBCEncryptor.outputoverflow e3) \<noteq>
         encrypt_stream 16 [replicate 16 65, replicate 16 66] toy_encryptor)"
  by code_simp

section \<open>The claims about the streams\<close>

text \<open>
  Claim C8. For every decryptor state, \<^verbatim>\<open>Close\<close> with fewer than 16 bytes of
  decrypted output buffered fails with the not-enough-bytes error and changes nothing. With
  at least 16 bytes buffered it applies \<^verbatim>\<open>Pkcs7Unpad\<close> to the buffered output:
  an error of \<^verbatim>\<open>Pkcs7Unpad\<close> is returned as it is, and malformed padding (the
  last byte \<open>n\<close> exceeds the length, or the last \<open>n\<close> bytes are not all \<open>n\<close>)
  gives the padding error; otherwise the unpadded bytes replace the buffer and the stream
  is closed.
\<close>

theorem Decryptor_Close_cases:
  "(length (AESCBCDecryptor.outputoverflow d) < 16 \<longrightarrow>
      Decryptor_Close d = (Some ErrNotEnoughBytes, d)) \<and>
   (16 \<le> length (AESCBCDecryptor.outputoverflow d) \<longrightarrow>
      Decryptor_Close d =
        (case Pkcs7Unpad (AESCBCDecryptor.outputoverflow d) of
           Inl err \<Rightarrow> (Some err, d)
         | Inr p \<Rightarrow> (None, d\<lparr> AESCBCDecryptor.outputoverflow := p,
                               AESCBCDecryptor.isClosed := True \<rparr>))) \<and>
   (16 \<le> length (AESCBCDecryptor.outputoverflow d) \<and>
    \<not> (unat (last (AESCBCDecryptor.outputoverflow d)) \<le> length (AESCBCDecryptor.outputoverflow d) \<and>
       list_all (\<lambda>x. x = last (AESCBCDecryptor.outputoverflow d))
         (drop (length (AESCBCDecryptor.outputoverflow d) -
                unat (last (AESCBCDecryptor.outputoverflow d)))
            (AESCBCDecryptor.outputoverflow d))) \<longrightarrow>
      Decryptor_Close d = (Some ErrInvalidPadding, d))"
proof (intro conjI impI)
  assume "length (AESCBCDecryptor.outputoverflow d) < 16"
  then show "Decryptor_Close d = (Some ErrNotEnoughBytes, d)"
    by (simp add: Decryptor_Close_def)
next
  assume "16 \<le> length (AESCBCDecryptor.outputoverflow d)"
  then show "Decryptor_Close d =
        (case Pkcs7Unpad (AESCBCDecryptor.outputoverflow d) of
           Inl err \<Rightarrow> (Some err, d)
         | Inr p \<Rightarrow> (None, d\<lparr> AESCBCDecryptor.outputoverflow := p,
                               AESCBCDecryptor.isClosed := True \<rparr>))"
    by (simp add: Decryptor_Close_def)
next
  let ?out = "AESCBCDecryptor.outputoverflow d"
  assume a: "16 \<le> length ?out \<and>
    \<not> (unat (last ?out) \<le> length ?out \<and>
       list_all (\<lambda>x. x = last ?out) (drop (length ?out - unat (last ?out)) ?out))"
  then have "?out \<noteq> []" by auto
  from Pkcs7Unpad_cases [OF this] a have "Pkcs7Unpad ?out = Inl ErrInvalidPadding"
    by simp
  with a show "Decryptor_Close d = (Some ErrInvalidPadding, d)"
    by (simp add: Decryptor_Close_def)
qed

theorem Decryptor_Close_cases_witness:
  "Decryptor_Close toy_decryptor = (Some ErrNotEnoughBytes, toy_decryptor) \<and>
   Decryptor_Close (toy_decryptor\<lparr> AESCBCDecryptor.outputoverflow := [0, 0, 0, 0, 0, 0, 0, 0, 0, 0, 0, 0, 0, 0, 0, 2] \<rparr>) =
     (Some ErrInvalidPadding,
      toy_decryptor\<lparr> AESCBCDecryptor.outputoverflow := [0, 0, 0, 0, 0, 0, 0, 0, 0, 0, 0, 0, 0, 0, 0, 2] \<rparr>) \<and>
   Decryptor_Close (toy_decryptor\<lparr> AESCBCDecryptor.outputoverflow :=
       [104, 101, 108, 108, 111, 11, 11, 11, 11, 11, 11, 11, 11, 11, 11, 11] \<rparr>) =
     (None, toy_decryptor\<lparr> AESCBCDecryptor.outputoverflow := [104, 101, 108, 108, 111],
                            AESCBCDecryptor.isClosed := True \<rparr>)"
proof -
  let ?bad = "toy_decryptor\<lparr> AESCBCDecryptor.outputoverflow := [0, 0, 0, 0, 0, 0, 0, 0, 0, 0, 0, 0, 0, 0, 0, 2] \<rparr>"
  let ?good = "toy_decryptor\<lparr> AESCBCDecryptor.outputoverflow :=
       [104, 101, 108, 108, 111, 11, 11, 11, 11, 11, 11, 11, 11, 11, 11, 11] \<rparr>"
  have short: "length (AESCBCDecryptor.outputoverflow toy_decryptor) < 16"
    by (simp add: toy_decryptor_def)
  have out: "AESCBCDecryptor.outputoverflow ?bad = [0, 0, 0, 0, 0, 0, 0, 0, 0, 0, 0, 0, 0, 0, 0, 2]"
    by simp
  have malformed: "16 \<le> length (AESCBCDecryptor.outputoverflow ?bad) \<and>
    \<not> (unat (last (AESCBCDecryptor.outputoverflow ?bad)) \<le> length (AESCBCDecryptor.outputoverflow ?bad) \<and>
       list_all (\<lambda>x. x = last (AESCBCDecryptor.outputoverflow ?bad))
         (drop (length (AESCBCDecryptor.outputoverflow ?bad) -
                unat (last (AESCBCDecryptor.outputoverflow ?bad)))
            (AESCBCDecryptor.outputoverflow ?bad)))"
    unfolding out by code_simp
  have long: "16 \<le> length (AESCBCDecryptor.outputoverflow ?good)"
    by simp
  have unpad: "Pkcs7Unpad [104, 101, 108, 108, 111, 11, 11, 11, 11, 11, 11, 11, 11, 11, 11, 11]
      = Inr [104, 101, 108, 108, 111]"
    by code_simp
  from Decryptor_Close_cases [of toy_decryptor] short
  have "Decryptor_Close toy_decryptor = (Some ErrNotEnoughBytes, toy_decryptor)"
    by blast
  moreover from Decryptor_Close_cases [of ?bad] malformed
  have "Decryptor_Close ?bad = (Some ErrInvalidPadding, ?bad)"
    by blast
  moreover from Decryptor_Close_cases [of ?good] long
  have "Decryptor_Close ?good =
        (case Pkcs7Unpad (AESCBCDecryptor.outputoverflow ?good) of
           Inl err \<Rightarrow> (Some err, ?good)
         | Inr p \<Rightarrow> (None, ?good\<lparr> AESCBCDecryptor.outputoverflow := p,
                               AESCBCDecryptor.isClosed := True \<rparr>))"
    by blast
  then have "Decryptor_Close ?good =
     (None, toy_decryptor\<lparr> AESCBCDecryptor.outputoverflow := [104, 101, 108, 108, 111],
                            AESCBCDecryptor.isClosed := True \<rparr>)"
    by (simp add: unpad)
  ultimately show ?thesis by blast
qed

text \<open>
  Claim C10. If \<^verbatim>\<open>Close\<close> of a decryptor returns an error, the error is the
  not-enough-bytes error or the padding error and the decryptor is unchanged: the closed
  flag and both buffers are as before, so a later \<^verbatim>\<open>Write\<close> or
  \<^verbatim>\<open>Read\<close>, with any slice and any memory, does what it would have done without
  the \<^verbatim>\<open>Close\<close>.
\<close>

theorem Decryptor_Close_error_unchanged:
  assumes "Decryptor_Close d = (Some err, d')"
  shows "d' = d \<and> (err = ErrNotEnoughBytes \<or> err = ErrInvalidPadding) \<and>
         AESCBCDecryptor.isClosed d' = AESCBCDecryptor.isClosed d \<and>
         AESCBCDecryptor.inputoverflow d' = AESCBCDecryptor.inputoverflow d \<and>
         AESCBCDecryptor.outputoverflow d' = AESCBCDecryptor.outputoverflow d \<and>
         Decryptor_Write p m d' = Decryptor_Write p m d \<and>
         Decryptor_Read q m d' = Decryptor_Read q m d"
proof -
  from assms have "d' = d \<and> (err = ErrNotEnoughBytes \<or> err = ErrInvalidPadding)"
    by (auto simp: Decryptor_Close_def split: if_splits sum.splits dest: Pkcs7Unpad_error)
  then show ?thesis by simp
qed

theorem Decryptor_Close_error_unchanged_witness:
  "Decryptor_Close toy_decryptor = (Some ErrNotEnoughBytes, toy_decryptor) \<and>
   Decryptor_Write \<lparr> Data = 0, Len = 3, Cap = 3 \<rparr> zero_memory (snd (Decryptor_Close toy_decryptor)) =
     Decryptor_Write \<lparr> Data = 0, Len = 3, Cap = 3 \<rparr> zero_memory toy_decryptor \<and>
   Decryptor_Close (toy_decryptor\<lparr> AESCBCDecryptor.outputoverflow := replicate 16 255 \<rparr>) =
     (Some ErrInvalidPadding,
      toy_decryptor\<lparr> AESCBCDecryptor.outputoverflow := replicate 16 255 \<rparr>)"
proof -
  let ?bad = "toy_decryptor\<lparr> AESCBCDecryptor.outputoverflow := replicate 16 255 \<rparr>"
  let ?s = "\<lparr> Data = 0, Len = 3, Cap = 3 \<rparr>"
  have c: "Decryptor_Close toy_decryptor = (Some ErrNotEnoughBytes, toy_decryptor)"
    by (simp add: Decryptor_Close_def toy_decryptor_def)
  have "Pkcs7Unpad (replicate 16 255) = Inl ErrInvalidPadding"
    by code_simp
  then have c': "Decryptor_Close ?bad = (Some ErrInvalidPadding, ?bad)"
    by (simp add: Decryptor_Close_def)
  from Decryptor_Close_error_unchanged [OF c, of ?s zero_memory ?s] c
  have "Decryptor_Write ?s zero_memory (snd (Decryptor_Close toy_decryptor)) =
      Decryptor_Write ?s zero_memory toy_decryptor"
    by simp
  moreover from Decryptor_Close_error_unchanged [OF c', of ?s zero_memory ?s]
  have "Decryptor_Close ?bad = (Some ErrInvalidPadding, ?bad)"
    using c' by simp
  ultimately show ?thesis using c by blast
qed

text \<open>
  Claim C5, as amended. After any sequence of successful \<^verbatim>\<open>Write\<close> calls on a
  new stream, by any caller (each call with its own slice, the memory as the caller has
  left it), the stream is open, and with \<open>n\<close> the number of bytes written: the
  decryptor's input overflow has \<open>n mod 16\<close> bytes, fewer than 16; the encryptor's
  input overflow has at most 16 bytes, none before the first call and
  \<open>(n - 1) mod 16 + 1\<close> after it, between 1 and 16, and 16 exactly when \<open>n\<close> is a
  multiple of 16. The statement is about lengths: which bytes the input overflow holds is
  up to the caller where it is a view of the caller's array
  (\<open>Encryptor_InputOverflow_shared\<close>, \<open>Decryptor_InputOverflow_shared\<close>), and is the
  tail of what was written for the caller of \<open>Encryptor_write_chunks_New\<close>.
\<close>

theorem InputOverflow_invariant:
  "(NewAESCBCDecryptor NewCipher key iv0 = Inr d0 \<and> Decryptor_writes calls d0 = Inr d \<longrightarrow>
      \<not> AESCBCDecryptor.isClosed d \<and>
      buf_len (AESCBCDecryptor.inputoverflow d) < 16 \<and>
      buf_len (AESCBCDecryptor.inputoverflow d) = sum_list (map (\<lambda>c. Len (fst c)) calls) mod 16) \<and>
   (Encryptor_writes calls (NewAESCBCEncryptor NewCipher key iv0) = Inr e \<longrightarrow>
      \<not> AESCBCEncryptor.isClosed e \<and>
      buf_len (AESCBCEncryptor.inputoverflow e) \<le> 16 \<and>
      (calls = [] \<longrightarrow> buf_len (AESCBCEncryptor.inputoverflow e) = 0) \<and>
      (calls \<noteq> [] \<longrightarrow>
         0 < sum_list (map (\<lambda>c. Len (fst c)) calls) \<and>
         1 \<le> buf_len (AESCBCEncryptor.inputoverflow e) \<and>
         buf_len (AESCBCEncryptor.inputoverflow e) =
           (sum_list (map (\<lambda>c. Len (fst c)) calls) - 1) mod 16 + 1 \<and>
         (buf_len (AESCBCEncryptor.inputoverflow e) = 16 \<longleftrightarrow>
            sum_list (map (\<lambda>c. Len (fst c)) calls) mod 16 = 0)))"
proof (intro conjI impI)
  let ?n = "sum_list (map (\<lambda>c. Len (fst c)) calls)"
  assume a: "NewAESCBCDecryptor NewCipher key iv0 = Inr d0 \<and> Decryptor_writes calls d0 = Inr d"
  then have d0: "NewAESCBCDecryptor NewCipher key iv0 = Inr d0" by simp
  from a have w: "Decryptor_writes calls d0 = Inr d" by simp
  note fresh = NewAESCBCDecryptor_fresh [OF d0]
  from Decryptor_writes_open [OF fresh(1) w]
  have open_d: "\<not> AESCBCDecryptor.isClosed d"
    and len: "calls \<noteq> [] \<Longrightarrow> buf_len (AESCBCDecryptor.inputoverflow d) = ?n mod 16"
    by (simp_all add: fresh(2))
  show "\<not> AESCBCDecryptor.isClosed d" by (rule open_d)
  show eq: "buf_len (AESCBCDecryptor.inputoverflow d) = ?n mod 16"
  proof (cases "calls = []")
    case True
    with w have "d = d0" by simp
    with True show ?thesis by (simp add: fresh(2))
  next
    case False
    then show ?thesis by (rule len)
  qed
  show "buf_len (AESCBCDecryptor.inputoverflow d) < 16" unfolding eq by simp
next
  let ?e0 = "NewAESCBCEncryptor NewCipher key iv0"
  let ?n = "sum_list (map (\<lambda>c. Len (fst c)) calls)"
  let ?k = "buf_len (AESCBCEncryptor.inputoverflow e)"
  assume a: "Encryptor_writes calls ?e0 = Inr e"
  have open0: "\<not> AESCBCEncryptor.isClosed ?e0" by (rule NewAESCBCEncryptor_fresh)
  have k0: "buf_len (AESCBCEncryptor.inputoverflow ?e0) = 0"
    by (simp add: NewAESCBCEncryptor_fresh)
  from Encryptor_writes_len [OF open0 a]
  have open_e: "\<not> AESCBCEncryptor.isClosed e"
    and pos: "calls \<noteq> [] \<Longrightarrow> 0 < ?n"
    and len: "calls \<noteq> [] \<Longrightarrow> ?k = (?n - 1) mod 16 + 1"
    by (simp_all add: k0)
  show "\<not> AESCBCEncryptor.isClosed e" by (rule open_e)
  have empty: "calls = [] \<Longrightarrow> ?k = 0"
  proof -
    assume "calls = []"
    with a have "e = ?e0" by simp
    then show "?k = 0" by (simp add: k0)
  qed
  show "?k \<le> 16"
  proof (cases "calls = []")
    case True
    then show ?thesis by (simp add: empty)
  next
    case False
    have "(?n - 1) mod 16 < 16" by simp
    then show ?thesis unfolding len [OF False] by simp
  qed
  {
    assume "calls = []"
    then show "?k = 0" by (rule empty)
  }
  {
    assume ne: "calls \<noteq> []"
    from pos [OF ne] show "0 < ?n" .
    show "1 \<le> ?k" unfolding len [OF ne] by simp
    show "?k = (?n - 1) mod 16 + 1" by (rule len [OF ne])
    show "?k = 16 \<longleftrightarrow> ?n mod 16 = 0"
    proof (cases "?n mod 16 = 0")
      case True
      with retained_len_aligned [OF pos [OF ne]] show ?thesis
        unfolding len [OF ne] by simp
    next
      case False
      moreover have "?n mod 16 < 16" by simp
      ultimately show ?thesis
        unfolding len [OF ne] retained_len_unaligned [OF False] by simp
    qed
  }
qed

theorem InputOverflow_invariant_witness:
  "(\<exists>d. NewAESCBCDecryptor toy_cipher zero_key zero_iv = Inr toy_decryptor \<and>
        Decryptor_writes [(\<lparr> Data = 0, Len = 3, Cap = 3 \<rparr>, zero_memory),
                          (\<lparr> Data = 0, Len = 2, Cap = 2 \<rparr>, zero_memory)] toy_decryptor = Inr d \<and>
        buf_len (AESCBCDecryptor.inputoverflow d) = 5) \<and>
   (\<exists>e. Encryptor_writes [(\<lparr> Data = 0, Len = 3, Cap = 3 \<rparr>, zero_memory),
                          (\<lparr> Data = 0, Len = 13, Cap = 13 \<rparr>, zero_memory)]
          (NewAESCBCEncryptor toy_cipher zero_key zero_iv) = Inr e \<and>
        buf_len (AESCBCEncryptor.inputoverflow e) = 16)"
proof -
  let ?e0 = "NewAESCBCEncryptor toy_cipher zero_key zero_iv"
  let ?dcalls = "[(\<lparr> Data = 0, Len = 3, Cap = 3 \<rparr>, zero_memory),
                  (\<lparr> Data = 0, Len = 2, Cap = 2 \<rparr>, zero_memory)]"
  let ?ecalls = "[(\<lparr> Data = 0, Len = 3, Cap = 3 \<rparr>, zero_memory),
                  (\<lparr> Data = 0, Len = 13, Cap = 13 \<rparr>, zero_memory)]"
  have "case Decryptor_writes ?dcalls toy_decryptor of Inl err \<Rightarrow> False | Inr d \<Rightarrow> True"
    by code_simp
  then obtain d where d: "Decryptor_writes ?dcalls toy_decryptor = Inr d"
    by (cases "Decryptor_writes ?dcalls toy_decryptor") simp_all
  have "case Encryptor_writes ?ecalls ?e0 of Inl err \<Rightarrow> False | Inr e \<Rightarrow> True"
    by code_simp
  then obtain e where e: "Encryptor_writes ?ecalls ?e0 = Inr e"
    by (cases "Encryptor_writes ?ecalls ?e0") simp_all
  from InputOverflow_invariant [where NewCipher = toy_cipher and key = zero_key and ?iv0.0 = zero_iv
      and ?d0.0 = toy_decryptor and calls = ?dcalls and d = d and e = e,
      THEN conjunct1, THEN mp, OF conjI [OF New_toy_decryptor d]]
  have "buf_len (AESCBCDecryptor.inputoverflow d) = 5" by simp
  moreover
  from InputOverflow_invariant [where NewCipher = toy_cipher and key = zero_key and ?iv0.0 = zero_iv
      and ?d0.0 = toy_decryptor and calls = ?ecalls and d = d and e = e,
      THEN conjunct2, THEN mp, OF e]
  have "buf_len (AESCBCEncryptor.inputoverflow e) = 16" by simp
  ultimately show ?thesis using New_toy_decryptor d e by blast
qed

text \<open>
  The claim as stated fails: a new encryptor holds no pending block, and after the five
  bytes of \<^verbatim>\<open>"hello"\<close> are written it is open and holds five bytes, not a block
  of 16. This is the design the comments of \<^verbatim>\<open>Write\<close> describe (the last block or
  partial block of plaintext is buffered until \<^verbatim>\<open>Close\<close>); the remark at
  \<^verbatim>\<open>Read\<close>, that the encryptor must hold on to at least 16 bytes of plaintext, is
  not what the code does.
\<close>

theorem Encryptor_InputOverflow_partial_block:
  "(let s = \<lparr> Data = 0, Len = 5, Cap = 5 \<rparr>;
        m0 = store zero_memory 0 [104, 101, 108, 108, 111];
        (r, e1, m1) = Encryptor_Write s m0 (NewAESCBCEncryptor toy_cipher zero_key zero_iv)
    in r = Inr 0 \<and> \<not> AESCBCEncryptor.isClosed e1 \<and>
       buf_len (AESCBCEncryptor.inputoverflow e1) = 5 \<and>
       AESCBCEncryptor.inputoverflow e1 = Own [104, 101, 108, 108, 111] \<and>
       buf_len (AESCBCEncryptor.inputoverflow (NewAESCBCEncryptor toy_cipher zero_key zero_iv)) = 0)"
  by code_simp

text \<open>
  Claim C7. On a closed stream every \<^verbatim>\<open>Write\<close>, with any slice and any memory,
  returns the writer-closed error and leaves the whole state (both buffers, the chaining
  value, every field) and the caller's memory as they were. \<^verbatim>\<open>Close\<close> of an
  encryptor always returns and leaves the stream closed, and so does a \<^verbatim>\<open>Close\<close>
  of a decryptor that returns no error; \<^verbatim>\<open>Read\<close> keeps a closed stream closed, so
  this holds for every later \<^verbatim>\<open>Write\<close>.
\<close>

theorem Write_after_Close:
  "(Encryptor_Close m0 e0 = (r, e1, m1) \<longrightarrow>
      r = None \<and> AESCBCEncryptor.isClosed e1 \<and>
      Encryptor_Write p m e1 = (Inl ErrWriterClosed, e1, m)) \<and>
   (Decryptor_Close d0 = (None, d1) \<longrightarrow>
      AESCBCDecryptor.isClosed d1 \<and>
      Decryptor_Write p m d1 = (Inl ErrWriterClosed, d1, m)) \<and>
   (AESCBCEncryptor.isClosed e \<longrightarrow>
      Encryptor_Write p m e = (Inl ErrWriterClosed, e, m) \<and>
      AESCBCEncryptor.isClosed (fst (snd (Encryptor_Read q m e)))) \<and>
   (AESCBCDecryptor.isClosed d \<longrightarrow>
      Decryptor_Write p m d = (Inl ErrWriterClosed, d, m) \<and>
      AESCBCDecryptor.isClosed (fst (snd (Decryptor_Read q m d))))"
proof (intro conjI impI)
  assume c: "Encryptor_Close m0 e0 = (r, e1, m1)"
  with Encryptor_Close_closed(1,2) [of m0 e0]
  show "r = None" and closed: "AESCBCEncryptor.isClosed e1"
    by simp_all
  then show "Encryptor_Write p m e1 = (Inl ErrWriterClosed, e1, m)"
    by (simp add: Encryptor_Write_def)
next
  assume c: "Decryptor_Close d0 = (None, d1)"
  then show closed: "AESCBCDecryptor.isClosed d1"
    by (auto simp: Decryptor_Close_def split: if_splits sum.splits)
  then show "Decryptor_Write p m d1 = (Inl ErrWriterClosed, d1, m)"
    by (simp add: Decryptor_Write_def)
next
  assume "AESCBCEncryptor.isClosed e"
  then show "Encryptor_Write p m e = (Inl ErrWriterClosed, e, m)"
    and "AESCBCEncryptor.isClosed (fst (snd (Encryptor_Read q m e)))"
    by (simp_all add: Encryptor_Write_def Encryptor_Read_def Let_def)
next
  assume "AESCBCDecryptor.isClosed d"
  then show "Decryptor_Write p m d = (Inl ErrWriterClosed, d, m)"
    and "AESCBCDecryptor.isClosed (fst (snd (Decryptor_Read q m d)))"
    by (simp_all add: Decryptor_Write_def Decryptor_Read_def Let_def)
qed

theorem Write_after_Close_witness:
  "(\<exists>e1 m1. Encryptor_Close zero_memory toy_encryptor = (None, e1, m1) \<and>
         Encryptor_Write \<lparr> Data = 0, Len = 3, Cap = 3 \<rparr> zero_memory e1 =
           (Inl ErrWriterClosed, e1, zero_memory)) \<and>
   (\<exists>d1. Decryptor_Close (toy_decryptor\<lparr> AESCBCDecryptor.outputoverflow := hello_padded \<rparr>)
           = (None, d1) \<and>
         Decryptor_Write \<lparr> Data = 0, Len = 3, Cap = 3 \<rparr> zero_memory d1 =
           (Inl ErrWriterClosed, d1, zero_memory))"
proof -
  let ?d0 = "toy_decryptor\<lparr> AESCBCDecryptor.outputoverflow := hello_padded \<rparr>"
  let ?s = "\<lparr> Data = 0, Len = 3, Cap = 3 \<rparr>"
  obtain r e1 m1 where e1: "Encryptor_Close zero_memory toy_encryptor = (r, e1, m1)"
    by (cases "Encryptor_Close zero_memory toy_encryptor")
  have unpad: "Pkcs7Unpad hello_padded = Inr [104, 101, 108, 108, 111]"
    by code_simp
  have "length hello_padded = 16" by (simp add: hello_padded_def)
  with unpad obtain d1 where d1: "Decryptor_Close ?d0 = (None, d1)"
    by (simp add: Decryptor_Close_def)
  note inst = Write_after_Close [where ?m0.0 = zero_memory and ?e0.0 = toy_encryptor and r = r
      and ?e1.0 = e1 and ?m1.0 = m1 and ?d0.0 = ?d0 and ?d1.0 = d1 and p = ?s and m = zero_memory]
  from inst e1
  have "r = None \<and> Encryptor_Write ?s zero_memory e1 = (Inl ErrWriterClosed, e1, zero_memory)"
    by blast
  moreover from inst d1
  have "Decryptor_Write ?s zero_memory d1 = (Inl ErrWriterClosed, d1, zero_memory)"
    by blast
  ultimately show ?thesis using e1 d1 by blast
qed

text \<open>
  Claim C4, as amended. Neither \<^verbatim>\<open>Close\<close> looks at the closed flag. On an
  encryptor (with a cipher that maps blocks to blocks and a chaining value of 16 bytes) the
  first \<^verbatim>\<open>Close\<close> leaves the input overflow in place, with the bytes it held, and
  a second one returns without error after padding and encrypting again what the input
  overflow then holds: the queue grows by the length of the input overflow plus its
  padding, at least 16 bytes. On a decryptor a second \<^verbatim>\<open>Close\<close> repeats the first
  on what the queue now holds: the not-enough-bytes error and no change below 16 bytes,
  the padding error and no change when \<^verbatim>\<open>Pkcs7Unpad\<close> rejects the bytes, and
  otherwise a second stripping.
\<close>

theorem second_Close:
  "(block_ok (block (AESCBCEncryptor.cbc e)) \<and> length (chain (AESCBCEncryptor.cbc e)) = 16 \<and>
    Encryptor_Close m e = (r1, e1, m1) \<and> Encryptor_Close m' e1 = (r2, e2, m2) \<longrightarrow>
      r1 = None \<and> r2 = None \<and> AESCBCEncryptor.isClosed e1 \<and> AESCBCEncryptor.isClosed e2 \<and>
      AESCBCEncryptor.inputoverflow e1 = AESCBCEncryptor.inputoverflow e \<and>
      buf_bytes m1 (AESCBCEncryptor.inputoverflow e) = buf_bytes m (AESCBCEncryptor.inputoverflow e) \<and>
      AESCBCEncryptor.outputoverflow e2 =
        AESCBCEncryptor.outputoverflow e1 @
          fst (encrypt_loop (block (AESCBCEncryptor.cbc e1)) (chain (AESCBCEncryptor.cbc e1))
                 (padded (buf_bytes m' (AESCBCEncryptor.inputoverflow e)))) \<and>
      length (AESCBCEncryptor.outputoverflow e2) =
        length (AESCBCEncryptor.outputoverflow e1) + buf_len (AESCBCEncryptor.inputoverflow e)
          + (16 - buf_len (AESCBCEncryptor.inputoverflow e) mod 16)) \<and>
   (Decryptor_Close d = (None, d1) \<longrightarrow>
      Decryptor_Close d1 =
        (if length (AESCBCDecryptor.outputoverflow d1) < 16 then (Some ErrNotEnoughBytes, d1)
         else case Pkcs7Unpad (AESCBCDecryptor.outputoverflow d1) of
                Inl err \<Rightarrow> (Some err, d1)
              | Inr p \<Rightarrow> (None, d1\<lparr> AESCBCDecryptor.outputoverflow := p \<rparr>)))"
proof (intro conjI impI)
  let ?io = "AESCBCEncryptor.inputoverflow e"
  let ?blk = "block (AESCBCEncryptor.cbc e)"
  let ?c0 = "chain (AESCBCEncryptor.cbc e)"
  assume a: "block_ok ?blk \<and> length ?c0 = 16 \<and>
    Encryptor_Close m e = (r1, e1, m1) \<and> Encryptor_Close m' e1 = (r2, e2, m2)"
  then have ok: "block_ok ?blk" and c0: "length ?c0 = 16" by simp_all
  from a have c1: "Encryptor_Close m e = (r1, e1, m1)"
    and c2: "Encryptor_Close m' e1 = (r2, e2, m2)" by simp_all
  from Encryptor_Close_eq [of m e] c1
  have r1: "r1 = None"
    and e1: "e1 = e\<lparr> AESCBCEncryptor.cbc := (AESCBCEncryptor.cbc e)
             \<lparr> chain := snd (encrypt_loop ?blk ?c0 (padded (buf_bytes m ?io))) \<rparr>,
         AESCBCEncryptor.outputoverflow := AESCBCEncryptor.outputoverflow e @
             fst (encrypt_loop ?blk ?c0 (padded (buf_bytes m ?io))),
         AESCBCEncryptor.isClosed := True \<rparr>"
    by auto
  from Encryptor_Close_eq [of m' e1] c2
  have r2: "r2 = None"
    and e2: "e2 = e1\<lparr> AESCBCEncryptor.cbc := (AESCBCEncryptor.cbc e1)
             \<lparr> chain := snd (encrypt_loop (block (AESCBCEncryptor.cbc e1))
                               (chain (AESCBCEncryptor.cbc e1))
                               (padded (buf_bytes m' (AESCBCEncryptor.inputoverflow e1)))) \<rparr>,
         AESCBCEncryptor.outputoverflow := AESCBCEncryptor.outputoverflow e1 @
             fst (encrypt_loop (block (AESCBCEncryptor.cbc e1))
                               (chain (AESCBCEncryptor.cbc e1))
                               (padded (buf_bytes m' (AESCBCEncryptor.inputoverflow e1)))),
         AESCBCEncryptor.isClosed := True \<rparr>"
    by auto
  show "r1 = None" by (rule r1)
  show "r2 = None" by (rule r2)
  show "AESCBCEncryptor.isClosed e1" by (subst e1) simp
  show "AESCBCEncryptor.isClosed e2" by (subst e2) simp
  show io1: "AESCBCEncryptor.inputoverflow e1 = ?io" by (subst e1) simp
  from Encryptor_Close_closed(4) [of m e] c1
  show "buf_bytes m1 ?io = buf_bytes m ?io" by simp
  have blk1: "block (AESCBCEncryptor.cbc e1) = ?blk" by (subst e1) simp
  have ch1: "chain (AESCBCEncryptor.cbc e1) = snd (encrypt_loop ?blk ?c0 (padded (buf_bytes m ?io)))"
    by (subst e1) simp
  from encrypt_loop_length [OF ok c0 length_padded_mod, of "buf_bytes m ?io"]
  have len_c1: "length (chain (AESCBCEncryptor.cbc e1)) = 16" unfolding ch1 by simp
  show out2: "AESCBCEncryptor.outputoverflow e2 =
        AESCBCEncryptor.outputoverflow e1 @
          fst (encrypt_loop (block (AESCBCEncryptor.cbc e1)) (chain (AESCBCEncryptor.cbc e1))
                 (padded (buf_bytes m' ?io)))"
    by (subst e2) (simp add: io1)
  from ok have ok1: "block_ok (block (AESCBCEncryptor.cbc e1))" unfolding blk1 .
  from encrypt_loop_length [OF ok1 len_c1 length_padded_mod, of "buf_bytes m' ?io"]
  show "length (AESCBCEncryptor.outputoverflow e2) =
        length (AESCBCEncryptor.outputoverflow e1) + buf_len ?io + (16 - buf_len ?io mod 16)"
    unfolding out2 by (simp add: length_padded)
next
  assume "Decryptor_Close d = (None, d1)"
  then have "AESCBCDecryptor.isClosed d1"
    by (auto simp: Decryptor_Close_def split: if_splits sum.splits)
  then have "\<And>x. d1\<lparr> AESCBCDecryptor.outputoverflow := x, AESCBCDecryptor.isClosed := True \<rparr>
      = d1\<lparr> AESCBCDecryptor.outputoverflow := x \<rparr>"
    by (cases d1) simp
  then show "Decryptor_Close d1 =
        (if length (AESCBCDecryptor.outputoverflow d1) < 16 then (Some ErrNotEnoughBytes, d1)
         else case Pkcs7Unpad (AESCBCDecryptor.outputoverflow d1) of
                Inl err \<Rightarrow> (Some err, d1)
              | Inr p \<Rightarrow> (None, d1\<lparr> AESCBCDecryptor.outputoverflow := p \<rparr>))"
    by (simp add: Decryptor_Close_def split: sum.splits)
qed

theorem second_Close_witness:
  "(\<exists>e1 m1 e2 m2. Encryptor_Close zero_memory toy_encryptor = (None, e1, m1) \<and>
       Encryptor_Close m1 e1 = (None, e2, m2) \<and>
       length (AESCBCEncryptor.outputoverflow e2) =
         length (AESCBCEncryptor.outputoverflow e1) + 16) \<and>
   (\<exists>d1. Decryptor_Close (toy_decryptor\<lparr> AESCBCDecryptor.outputoverflow := hello_padded \<rparr>)
           = (None, d1) \<and>
         Decryptor_Close d1 = (Some ErrNotEnoughBytes, d1))"
proof -
  let ?d0 = "toy_decryptor\<lparr> AESCBCDecryptor.outputoverflow := hello_padded \<rparr>"
  let ?d1 = "?d0\<lparr> AESCBCDecryptor.outputoverflow := [104, 101, 108, 108, 111],
                  AESCBCDecryptor.isClosed := True \<rparr>"
  obtain r1 e1 m1 where e1: "Encryptor_Close zero_memory toy_encryptor = (r1, e1, m1)"
    by (cases "Encryptor_Close zero_memory toy_encryptor")
  obtain r2 e2 m2 where e2: "Encryptor_Close m1 e1 = (r2, e2, m2)"
    by (cases "Encryptor_Close m1 e1")
  have ok: "block_ok (block (AESCBCEncryptor.cbc toy_encryptor))"
    by (simp add: toy_encryptor_def NewAESCBCEncryptor_fresh block_ok_toy_cipher)
  have c0: "length (chain (AESCBCEncryptor.cbc toy_encryptor)) = 16"
    by (simp add: toy_encryptor_def NewAESCBCEncryptor_fresh zero_iv_def)
  have io: "buf_len (AESCBCEncryptor.inputoverflow toy_encryptor) = 0"
    by (simp add: toy_encryptor_def NewAESCBCEncryptor_fresh)
  have unpad: "Pkcs7Unpad hello_padded = Inr [104, 101, 108, 108, 111]"
    by code_simp
  have "length hello_padded = 16" by (simp add: hello_padded_def)
  with unpad have d1: "Decryptor_Close ?d0 = (None, ?d1)"
    by (simp add: Decryptor_Close_def)
  note inst = second_Close [where e = toy_encryptor and m = zero_memory and ?r1.0 = r1
      and ?e1.0 = e1 and ?m1.0 = m1 and m' = m1 and ?r2.0 = r2 and ?e2.0 = e2 and ?m2.0 = m2
      and d = ?d0 and ?d1.0 = ?d1]
  from inst ok c0 e1 e2
  have "r1 = None \<and> r2 = None \<and>
      length (AESCBCEncryptor.outputoverflow e2) =
        length (AESCBCEncryptor.outputoverflow e1) + buf_len (AESCBCEncryptor.inputoverflow toy_encryptor)
          + (16 - buf_len (AESCBCEncryptor.inputoverflow toy_encryptor) mod 16)"
    by blast
  with e1 e2 io have enc: "\<exists>e1 m1 e2 m2. Encryptor_Close zero_memory toy_encryptor = (None, e1, m1) \<and>
      Encryptor_Close m1 e1 = (None, e2, m2) \<and>
      length (AESCBCEncryptor.outputoverflow e2) = length (AESCBCEncryptor.outputoverflow e1) + 16"
    by auto
  from inst d1
  have "Decryptor_Close ?d1 =
        (if length (AESCBCDecryptor.outputoverflow ?d1) < 16 then (Some ErrNotEnoughBytes, ?d1)
         else case Pkcs7Unpad (AESCBCDecryptor.outputoverflow ?d1) of
                Inl err \<Rightarrow> (Some err, ?d1)
              | Inr p \<Rightarrow> (None, ?d1\<lparr> AESCBCDecryptor.outputoverflow := p \<rparr>))"
    by blast
  then have "Decryptor_Close ?d1 = (Some ErrNotEnoughBytes, ?d1)" by simp
  with d1 have "\<exists>d1. Decryptor_Close ?d0 = (None, d1) \<and>
      Decryptor_Close d1 = (Some ErrNotEnoughBytes, d1)"
    by blast
  with enc show ?thesis by blast
qed

text \<open>
  The claim as stated fails on a new encryptor: both calls of \<^verbatim>\<open>Close\<close> return
  without error, and the second makes the readable ciphertext 32 bytes long where the
  first left 16.
\<close>

theorem Encryptor_Close_twice:
  "(let (r1, e1, m1) = Encryptor_Close zero_memory toy_encryptor;
        (r2, e2, m2) = Encryptor_Close m1 e1
    in r1 = None \<and> r2 = None \<and>
       length (AESCBCEncryptor.outputoverflow e1) = 16 \<and>
       length (AESCBCEncryptor.outputoverflow e2) = 32)"
  by code_simp

text \<open>
  Claim C6 fails on the code. On a new decryptor, open and with nothing buffered,
  \<^verbatim>\<open>Read\<close> into any slice does not return zero bytes and a nil error: the slice
  expression \<^verbatim>\<open>e.outputoverflow[:len(e.outputoverflow)-bytesToRetain]\<close> has the
  bound \<open>0 - 16\<close> and panics. (\<open>Read_without_output\<close> above has the cases that do
  hold.)
\<close>

theorem Decryptor_Read_before_first_block:
  "NewAESCBCDecryptor toy_cipher zero_key zero_iv = Inr toy_decryptor \<and>
   Decryptor_Read p m toy_decryptor = (Inl PanicSliceBounds, toy_decryptor, m)"
  by (simp add: New_toy_decryptor) (simp add: Decryptor_Read_def toy_decryptor_def)

text \<open>
  Claim C1 fails on the code at the length 0. \<^verbatim>\<open>Write\<close> of an empty slice to a
  new encryptor finds the combined buffer block-aligned, takes the branch that keeps the
  last block, and panics in \<^verbatim>\<open>p[len(p)-e.cbc.BlockSize():]\<close>, whose bound is
  \<open>0 - 16\<close>; nothing is encrypted and there is no ciphertext to decrypt. (For every
  non-empty payload the round trip holds: \<open>roundtrip_nonempty\<close> above.)
\<close>

theorem Encryptor_Write_empty_panics:
  "Encryptor_Write (s\<lparr> Len := 0 \<rparr>) m (NewAESCBCEncryptor NewCipher key iv0) =
     (Inl PanicSliceBounds, NewAESCBCEncryptor NewCipher key iv0, m) \<and>
   encrypt_stream len_p [[]] (NewAESCBCEncryptor NewCipher key iv0) = Inl PanicSliceBounds"
  by (simp add: encrypt_stream_def Encryptor_Write_empty NewAESCBCEncryptor_fresh)

text \<open>
  Claim C9 fails on the code for a split whose first chunk is empty, by the same panic:
  \<^verbatim>\<open>"hello"\<close> written as an empty chunk followed by the five bytes panics in the
  first \<^verbatim>\<open>Write\<close>, while the single \<^verbatim>\<open>Write\<close> of the five bytes yields
  16 bytes of ciphertext. (For every split whose first chunk is non-empty, written by a
  caller that leaves the payload alone, the two ciphertexts are equal:
  \<open>streaming_equivalence_nonempty\<close> above; for a caller that refills its buffer
  between the calls they need not be: \<open>encrypt_reused_buffer\<close>.)
\<close>

theorem encrypt_stream_empty_first_chunk:
  "encrypt_stream 16 [[], [104, 101, 108, 108, 111]] toy_encryptor = Inl PanicSliceBounds \<and>
   encrypt_stream 16 [[104, 101, 108, 108, 111]] toy_encryptor =
     Inr [12, 12, 12, 12, 12, 12, 12, 12, 12, 12, 12, 112, 109, 109, 102, 105]"
  by code_simp

end
